theory Spec2Isabelle
  imports Complex_Main "HOL-Library.Word"
begin

section \<open>Numbers and typed arrays of the depth processor\<close>

text \<open>
  The depth processor (\<^verbatim>\<open>src/depth-processor.js\<close>) works on three kinds of typed arrays:
  \<^verbatim>\<open>Uint8Array\<close> / \<^verbatim>\<open>Uint8ClampedArray\<close> (grey levels, RGBA samples, the normalised depth
  map) and \<^verbatim>\<open>Float32Array\<close> (disparity, edge magnitude, radial weight, filtered fields).

  \<^item> An 8-bit element is an \<open>8 word\<close>.
  \<^item> A JavaScript number that is finite or NaN is a \<open>jsnum\<close>: \<open>Num v\<close> or \<open>NaN\<close>.
    Integer-valued quantities (the SAD of the block matcher) are \<open>int jsnum\<close> and exact.
  \<^item> A number that may also be infinite is an \<open>xnum\<close>: the normaliser reads such
    values and starts its minimum and maximum at \<^verbatim>\<open>Infinity\<close> and \<^verbatim>\<open>-Infinity\<close>.
  \<^item> \<open>fl p\<close> rounds a real number to the nearest binary floating-point number with
    \<open>p\<close> significant bits, a tie to the even neighbour, with no bound on the exponent.
    \<open>fl 53\<close> is the rounding of every operation on doubles and \<open>fl 24\<close> the rounding of
    a store into a \<^verbatim>\<open>Float32Array\<close>, as long as the result is in the normal range of
    the format (no overflow, no gradual underflow); a positive and a negative zero are not
    told apart. \<^verbatim>\<open>Math.sqrt\<close> is taken as the correctly rounded square root.
    The luminosity, the normaliser and the Sobel magnitude are modelled with this
    rounding. The Gaussian weights and sums, the radial value and the combination of the
    fallback pipeline are modelled with the arithmetic of the reals.
  \<^item> Reading a typed array outside its bounds gives \<^verbatim>\<open>undefined\<close>, which every
    arithmetic operation turns into NaN: \<open>rd\<close> returns \<open>None\<close> there.
    Writing outside the bounds is ignored: \<open>wr\<close> leaves the array unchanged.
\<close>

type_synonym u8 = "8 word"

datatype 'a jsnum = Num 'a | NaN

definition rd :: "'a list \<Rightarrow> int \<Rightarrow> 'a option" where
  "rd a i = (if 0 \<le> i \<and> i < int (length a) then Some (a ! nat i) else None)"

definition wr :: "'a list \<Rightarrow> int \<Rightarrow> 'a \<Rightarrow> 'a list" where
  "wr a i v = (if 0 \<le> i \<and> i < int (length a) then a[nat i := v] else a)"

fun js_add :: "('a::plus) jsnum \<Rightarrow> 'a jsnum \<Rightarrow> 'a jsnum" where
  "js_add (Num a) (Num b) = Num (a + b)"
| "js_add _ _ = NaN"

fun js_mul :: "('a::times) jsnum \<Rightarrow> 'a jsnum \<Rightarrow> 'a jsnum" where
  "js_mul (Num a) (Num b) = Num (a * b)"
| "js_mul _ _ = NaN"

text \<open>Rounding to the nearest integer, a half to the even neighbour.\<close>

definition round_half_even :: "real \<Rightarrow> int" where
  "round_half_even r =
     (let f = \<lfloor>r\<rfloor>
      in if r - of_int f < 1 / 2 then f
         else if 1 / 2 < r - of_int f then f + 1
         else if even f then f else f + 1)"

text \<open>
  Rounding to \<open>p\<close> significant bits: \<open>u\<close> is the spacing of the floating-point numbers
  in the binade of \<open>x\<close>.
\<close>

definition fl :: "nat \<Rightarrow> real \<Rightarrow> real" where
  "fl p x =
     (if x = 0 then 0
      else let u = 2 powi (\<lfloor>log 2 \<bar>x\<bar>\<rfloor> - (int p - 1))
           in of_int (round_half_even (x / u)) * u)"

datatype 'a xnum = Fin 'a | PosInf | NegInf | XNaN

definition xnum_of :: "'a jsnum \<Rightarrow> 'a xnum" where
  "xnum_of v = (case v of Num r \<Rightarrow> Fin r | NaN \<Rightarrow> XNaN)"

text \<open>The comparison \<^verbatim>\<open>a < b\<close>: false as soon as one side is NaN.\<close>

fun x_lt :: "real xnum \<Rightarrow> real xnum \<Rightarrow> bool" where
  "x_lt (Fin a) (Fin b) = (a < b)"
| "x_lt (Fin a) PosInf = True"
| "x_lt NegInf (Fin b) = True"
| "x_lt NegInf PosInf = True"
| "x_lt _ _ = False"

text \<open>The sign of a number as \<open>1\<close>, \<open>0\<close> or \<open>- 1\<close>; NaN has none.\<close>

fun x_sign :: "real xnum \<Rightarrow> int" where
  "x_sign (Fin a) = (if 0 < a then 1 else if a < 0 then - 1 else 0)"
| "x_sign PosInf = 1"
| "x_sign NegInf = - 1"
| "x_sign XNaN = 0"

text \<open>Subtraction, multiplication and division of doubles.\<close>

fun x_sub :: "real xnum \<Rightarrow> real xnum \<Rightarrow> real xnum" where
  "x_sub (Fin a) (Fin b) = Fin (fl 53 (a - b))"
| "x_sub XNaN _ = XNaN"
| "x_sub _ XNaN = XNaN"
| "x_sub PosInf PosInf = XNaN"
| "x_sub NegInf NegInf = XNaN"
| "x_sub PosInf _ = PosInf"
| "x_sub NegInf _ = NegInf"
| "x_sub (Fin a) PosInf = NegInf"
| "x_sub (Fin a) NegInf = PosInf"

fun x_mul :: "real xnum \<Rightarrow> real xnum \<Rightarrow> real xnum" where
  "x_mul (Fin a) (Fin b) = Fin (fl 53 (a * b))"
| "x_mul XNaN _ = XNaN"
| "x_mul _ XNaN = XNaN"
| "x_mul a b =
     (if x_sign a * x_sign b = 0 then XNaN
      else if 0 < x_sign a * x_sign b then PosInf else NegInf)"

text \<open>
  In a division by zero the divisor is taken as the positive zero; the normaliser never
  divides by zero.
\<close>

fun x_div :: "real xnum \<Rightarrow> real xnum \<Rightarrow> real xnum" where
  "x_div (Fin a) (Fin b) =
     (if b = 0 then (if a = 0 then XNaN else if 0 < a then PosInf else NegInf)
      else Fin (fl 53 (a / b)))"
| "x_div XNaN _ = XNaN"
| "x_div _ XNaN = XNaN"
| "x_div (Fin a) _ = Fin 0"
| "x_div PosInf (Fin b) = (if 0 \<le> b then PosInf else NegInf)"
| "x_div NegInf (Fin b) = (if 0 \<le> b then NegInf else PosInf)"
| "x_div _ _ = XNaN"

text \<open>\<^verbatim>\<open>Math.round\<close>: a half is rounded upwards, as \<^const>\<open>round\<close> does.\<close>

fun x_round :: "real xnum \<Rightarrow> int xnum" where
  "x_round (Fin a) = Fin (round a)"
| "x_round PosInf = PosInf"
| "x_round NegInf = NegInf"
| "x_round XNaN = XNaN"

section \<open>Block matching (\<^verbatim>\<open>blockMatch\<close>, lines 110 to 145)\<close>

text \<open>
  \<open>window\<close> lists, in the order of the two inner loops (\<^verbatim>\<open>by\<close> outside, \<^verbatim>\<open>bx\<close> inside),
  the row, the left column and the right column of every sample that the SAD of
  candidate \<open>d\<close> at pixel \<open>(x, y)\<close> reads; \<open>leftIdx\<close> and \<open>rightIdx\<close> are the buffer indices
  the source computes from them.
\<close>

definition window :: "int \<Rightarrow> int \<Rightarrow> int \<Rightarrow> int \<Rightarrow> (int \<times> int \<times> int) list" where
  "window halfBlock x y d =
     concat (map (\<lambda>by. map (\<lambda>bx. (y + by, x + bx, x + bx - d)) [- halfBlock..halfBlock])
                 [- halfBlock..halfBlock])"

definition leftIdx :: "int \<Rightarrow> int \<times> int \<times> int \<Rightarrow> int" where
  "leftIdx width p = (case p of (r, cl, cr) \<Rightarrow> r * width + cl)"

definition rightIdx :: "int \<Rightarrow> int \<times> int \<times> int \<Rightarrow> int" where
  "rightIdx width p = (case p of (r, cl, cr) \<Rightarrow> r * width + cr)"

text \<open>\<^verbatim>\<open>Math.abs(left[leftIdx] - right[rightIdx])\<close>: NaN as soon as one read is undefined.\<close>

fun absdiff :: "u8 option \<Rightarrow> u8 option \<Rightarrow> int jsnum" where
  "absdiff (Some l) (Some r) = Num \<bar>uint l - uint r\<bar>"
| "absdiff _ _ = NaN"

definition sad :: "u8 list \<Rightarrow> u8 list \<Rightarrow> int \<Rightarrow> int \<Rightarrow> int \<Rightarrow> int \<Rightarrow> int \<Rightarrow> int jsnum" where
  "sad left right width halfBlock x y d =
     fold (\<lambda>p s. js_add s (absdiff (rd left (leftIdx width p)) (rd right (rightIdx width p))))
          (window halfBlock x y d) (Num 0)"

text \<open>
  One step of the search loop. The state is \<^verbatim>\<open>(bestDisparity, minSAD)\<close>; \<open>minSAD = None\<close>
  is the initial \<^verbatim>\<open>Infinity\<close>. The test \<^verbatim>\<open>sad < minSAD\<close> is false when \<^verbatim>\<open>sad\<close> is NaN.
\<close>

definition search_step ::
  "u8 list \<Rightarrow> u8 list \<Rightarrow> int \<Rightarrow> int \<Rightarrow> int \<Rightarrow> int \<Rightarrow> int \<Rightarrow> int \<times> int option \<Rightarrow> int \<times> int option" where
  "search_step left right width halfBlock x y d st =
     (case sad left right width halfBlock x y d of
        NaN \<Rightarrow> st
      | Num s \<Rightarrow>
          (if (case snd st of None \<Rightarrow> True | Some m \<Rightarrow> s < m) then (d, Some s) else st))"

definition maxD :: "int \<Rightarrow> int \<Rightarrow> int \<Rightarrow> int" where
  "maxD maxDisparity halfBlock x = min maxDisparity (x - halfBlock)"

definition bestDisparity :: "u8 list \<Rightarrow> u8 list \<Rightarrow> int \<Rightarrow> int \<Rightarrow> int \<Rightarrow> int \<Rightarrow> int \<Rightarrow> int" where
  "bestDisparity left right width halfBlock maxDisparity x y =
     fst (fold (search_step left right width halfBlock x y)
               [0..maxD maxDisparity halfBlock x] (0, None))"

definition blockMatch :: "u8 list \<Rightarrow> u8 list \<Rightarrow> nat \<Rightarrow> nat \<Rightarrow> int \<Rightarrow> int \<Rightarrow> real list" where
  "blockMatch left right width height blockSize maxDisparity =
     (let disparity = replicate (width * height) 0;
          halfBlock = blockSize div 2
      in fold (\<lambda>y. fold (\<lambda>x disparity.
                 wr disparity (y * int width + x)
                    (of_int (bestDisparity left right (int width) halfBlock maxDisparity x y)))
               [halfBlock..int width - halfBlock - 1])
           [halfBlock..int height - halfBlock - 1] disparity)"

text \<open>Every sample position the block matcher visits, over all pixels and candidates.\<close>

definition blockMatch_reads :: "nat \<Rightarrow> nat \<Rightarrow> int \<Rightarrow> int \<Rightarrow> (int \<times> int \<times> int) list" where
  "blockMatch_reads width height blockSize maxDisparity =
     (let halfBlock = blockSize div 2
      in concat (map (\<lambda>y. concat (map (\<lambda>x.
            concat (map (\<lambda>d. window halfBlock x y d) [0..maxD maxDisparity halfBlock x]))
          [halfBlock..int width - halfBlock - 1]))
        [halfBlock..int height - halfBlock - 1]))"

section \<open>Grayscale conversion (\<^verbatim>\<open>toGrayscale\<close>, lines 94 to 105)\<close>

text \<open>
  An \<^verbatim>\<open>ImageData\<close> as \<^verbatim>\<open>getImageData\<close> returns it: the dimensions and the interleaved
  RGBA samples. The canvas that decodes the image is outside the processor.
\<close>

record imageData =
  im_width :: nat
  im_height :: nat
  im_data :: "u8 list"

text \<open>
  \<^verbatim>\<open>Math.round(0.299 * data[idx] + 0.587 * data[idx + 1] + 0.114 * data[idx + 2])\<close>:
  the three literals are the nearest doubles, and the three products and the two sums,
  taken from the left, are rounded to doubles.
  \<^verbatim>\<open>Math.round\<close> rounds a half upwards, as \<^const>\<open>round\<close> does.
\<close>

definition weighted :: "real \<Rightarrow> int \<Rightarrow> real" where
  "weighted c v = fl 53 (fl 53 c * real_of_int v)"

fun luminosity :: "u8 option \<Rightarrow> u8 option \<Rightarrow> u8 option \<Rightarrow> int jsnum" where
  "luminosity (Some r) (Some g) (Some b) =
     Num (round (fl 53 (fl 53 (weighted 0.299 (uint r) + weighted 0.587 (uint g))
                        + weighted 0.114 (uint b))))"
| "luminosity _ _ _ = NaN"

text \<open>
  A store into a \<^verbatim>\<open>Uint8Array\<close> keeps the integer modulo 256 and turns NaN into 0:
  nothing is clamped.
\<close>

definition toUint8 :: "int jsnum \<Rightarrow> u8" where
  "toUint8 v = (case v of Num n \<Rightarrow> word_of_int n | NaN \<Rightarrow> 0)"

text \<open>The value of \<^verbatim>\<open>Math.round(...)\<close> for every pixel, before it is stored.\<close>

definition toGrayscale_rounded :: "imageData \<Rightarrow> int jsnum list" where
  "toGrayscale_rounded imageData =
     map (\<lambda>i. let idx = int i * 4
              in luminosity (rd (im_data imageData) idx) (rd (im_data imageData) (idx + 1))
                            (rd (im_data imageData) (idx + 2)))
         [0..<im_width imageData * im_height imageData]"

definition toGrayscale :: "imageData \<Rightarrow> u8 list" where
  "toGrayscale imageData = map toUint8 (toGrayscale_rounded imageData)"

section \<open>Median filter (\<^verbatim>\<open>medianFilter\<close>, lines 150 to 173)\<close>

text \<open>The buffer indices gathered for pixel \<open>(x, y)\<close>, coordinates clamped to the field.\<close>

definition median_indices :: "int \<Rightarrow> int \<Rightarrow> int \<Rightarrow> int \<Rightarrow> int \<Rightarrow> int list" where
  "median_indices width height half x y =
     concat (map (\<lambda>ky. map (\<lambda>kx.
               (let ny = max 0 (min (height - 1) (y + ky));
                    nx = max 0 (min (width - 1) (x + kx))
                in ny * width + nx))
             [- half..half])
        [- half..half])"

text \<open>
  \<^verbatim>\<open>kernel.sort((a, b) => a - b)\<close>: the numbers in ascending order, then the
  \<^verbatim>\<open>undefined\<close> entries, which \<^verbatim>\<open>Array.prototype.sort\<close> always moves to the end.
\<close>

definition js_sort :: "real option list \<Rightarrow> real option list" where
  "js_sort kern =
     (let nums = concat (map (\<lambda>v. case v of None \<Rightarrow> [] | Some r \<Rightarrow> [r]) kern)
      in map Some (sort nums) @ replicate (length kern - length nums) None)"

definition median_at :: "real list \<Rightarrow> int \<Rightarrow> int \<Rightarrow> int \<Rightarrow> int \<Rightarrow> int \<Rightarrow> real jsnum" where
  "median_at data width height half x y =
     (let kern = js_sort (map (rd data) (median_indices width height half x y))
      in case rd kern (int (length kern) div 2) of
           Some (Some v) \<Rightarrow> Num v
         | _ \<Rightarrow> NaN)"

definition medianFilter :: "real list \<Rightarrow> nat \<Rightarrow> nat \<Rightarrow> int \<Rightarrow> real jsnum list" where
  "medianFilter data width height kernelSize =
     (let result = replicate (length data) (Num 0);
          half = kernelSize div 2
      in fold (\<lambda>y. fold (\<lambda>x result.
                 wr result (y * int width + x) (median_at data (int width) (int height) half x y))
               [0..int width - 1])
           [0..int height - 1] result)"

section \<open>Gaussian blur (\<^verbatim>\<open>gaussianBlur\<close>, lines 178 to 222)\<close>

text \<open>A read of a \<^verbatim>\<open>Float32Array\<close> (or of the kernel) used in arithmetic.\<close>

definition rdn :: "'a jsnum list \<Rightarrow> int \<Rightarrow> 'a jsnum" where
  "rdn a i = (case rd a i of Some v \<Rightarrow> v | None \<Rightarrow> NaN)"

text \<open>
  The normalised weights. With \<open>sigma = 0\<close> the only exponent is \<^verbatim>\<open>-0 / 0\<close>, NaN.
\<close>

definition gaussKernel :: "real \<Rightarrow> real jsnum list" where
  "gaussKernel sigma =
     (let kernelSize = \<lceil>sigma * 3\<rceil> * 2 + 1;
          half = kernelSize div 2;
          kern = map (\<lambda>i. exp (- (of_int (i * i)) / (2 * sigma * sigma))) [- half..half];
          sum = fold (\<lambda>val sum. sum + val) kern 0
      in if sigma = 0 then [NaN] else map (\<lambda>val. Num (val / sum)) kern)"

definition blur_h :: "real jsnum list \<Rightarrow> real jsnum list \<Rightarrow> int \<Rightarrow> int \<Rightarrow> int \<Rightarrow> int \<Rightarrow> real jsnum" where
  "blur_h data kern width half x y =
     fold (\<lambda>k val. let nx = max 0 (min (width - 1) (x + k))
                   in js_add val (js_mul (rdn data (y * width + nx)) (rdn kern (k + half))))
          [- half..half] (Num 0)"

definition blur_v :: "real jsnum list \<Rightarrow> real jsnum list \<Rightarrow> int \<Rightarrow> int \<Rightarrow> int \<Rightarrow> int \<Rightarrow> int \<Rightarrow> real jsnum" where
  "blur_v temp kern width height half x y =
     fold (\<lambda>k val. let ny = max 0 (min (height - 1) (y + k))
                   in js_add val (js_mul (rdn temp (ny * width + x)) (rdn kern (k + half))))
          [- half..half] (Num 0)"

definition gaussianBlur :: "real jsnum list \<Rightarrow> nat \<Rightarrow> nat \<Rightarrow> real \<Rightarrow> real jsnum list" where
  "gaussianBlur data width height sigma =
     (let result = replicate (length data) (Num 0);
          kernelSize = \<lceil>sigma * 3\<rceil> * 2 + 1;
          half = kernelSize div 2;
          kern = gaussKernel sigma;
          temp = fold (\<lambda>y. fold (\<lambda>x temp.
                    wr temp (y * int width + x) (blur_h data kern (int width) half x y))
                  [0..int width - 1])
                 [0..int height - 1] (replicate (length data) (Num 0))
      in fold (\<lambda>y. fold (\<lambda>x result.
                 wr result (y * int width + x)
                    (blur_v temp kern (int width) (int height) half x y))
               [0..int width - 1])
           [0..int height - 1] result)"

section \<open>Normalisation (\<^verbatim>\<open>normalizeArray\<close>, lines 227 to 244)\<close>

text \<open>
  The state of the first loop is \<^verbatim>\<open>(min, max)\<close>, which starts at
  \<^verbatim>\<open>(Infinity, -Infinity)\<close>.
\<close>

definition minmax_step :: "real xnum \<Rightarrow> real xnum \<times> real xnum \<Rightarrow> real xnum \<times> real xnum" where
  "minmax_step v st =
     ((if x_lt v (fst st) then v else fst st), (if x_lt (snd st) v then v else snd st))"

text \<open>\<^verbatim>\<open>max - min || 1\<close>: the difference, or 1 when it is zero or NaN.\<close>

definition norm_range :: "real xnum \<Rightarrow> real xnum \<Rightarrow> real xnum" where
  "norm_range mn mx =
     (let d = x_sub mx mn in if d = Fin 0 \<or> d = XNaN then Fin 1 else d)"

text \<open>\<^verbatim>\<open>Math.round(((data[i] - min) / range) * 255)\<close>, every operation on doubles.\<close>

definition norm_round :: "real xnum \<Rightarrow> real xnum \<Rightarrow> real xnum \<Rightarrow> int xnum" where
  "norm_round v mn rng = x_round (x_mul (x_div (x_sub v mn) rng) (Fin 255))"

text \<open>
  A store into a \<^verbatim>\<open>Uint8Array\<close>: the integer modulo 256; NaN and the infinities
  become 0.
\<close>

definition toUint8x :: "int xnum \<Rightarrow> u8" where
  "toUint8x v = (case v of Fin n \<Rightarrow> word_of_int n | _ \<Rightarrow> 0)"

text \<open>The value of \<^verbatim>\<open>Math.round(...)\<close> for every element, before it is stored.\<close>

definition normalize_rounded :: "real xnum list \<Rightarrow> int xnum list" where
  "normalize_rounded data =
     (let st = fold minmax_step data (PosInf, NegInf);
          range = norm_range (fst st) (snd st)
      in map (\<lambda>v. norm_round v (fst st) range) data)"

definition normalizeArray :: "real xnum list \<Rightarrow> u8 list" where
  "normalizeArray data = map toUint8x (normalize_rounded data)"

section \<open>Sobel edges (\<^verbatim>\<open>sobelEdges\<close>, lines 313 to 338)\<close>

definition sobelX :: "int list" where
  "sobelX = [- 1, 0, 1, - 2, 0, 2, - 1, 0, 1]"

definition sobelY :: "int list" where
  "sobelY = [- 1, - 2, - 1, 0, 0, 0, 1, 2, 1]"

text \<open>The offsets \<^verbatim>\<open>(ky, kx)\<close> in the order in which the counter \<^verbatim>\<open>k\<close> numbers them.\<close>

definition sobel_taps :: "(int \<times> int) list" where
  "sobel_taps = concat (map (\<lambda>ky. map (\<lambda>kx. (ky, kx)) [- 1..1]) [- 1..1])"

definition gray_val :: "u8 list \<Rightarrow> int \<Rightarrow> int jsnum" where
  "gray_val gray i = (case rd gray i of Some v \<Rightarrow> Num (uint v) | None \<Rightarrow> NaN)"

definition sobel_grad :: "u8 list \<Rightarrow> int \<Rightarrow> int list \<Rightarrow> int \<Rightarrow> int \<Rightarrow> int jsnum" where
  "sobel_grad gray width coeff x y =
     fold (\<lambda>t g. case t of ((ky, kx), c) \<Rightarrow>
                   js_add g (js_mul (gray_val gray ((y + ky) * width + (x + kx))) (Num c)))
          (zip sobel_taps coeff) (Num 0)"

text \<open>
  \<^verbatim>\<open>Math.sqrt(gx * gx + gy * gy) / 255\<close> as it is stored into the \<^verbatim>\<open>Float32Array\<close>:
  the sum of the squares is an exact integer, the square root and the quotient are
  rounded to doubles and the store rounds to single precision.
\<close>

definition sobel_mag :: "int jsnum \<Rightarrow> int jsnum \<Rightarrow> real jsnum" where
  "sobel_mag gx gy =
     (case (gx, gy) of
        (Num a, Num b) \<Rightarrow> Num (fl 24 (fl 53 (fl 53 (sqrt (of_int (a * a + b * b))) / 255)))
      | _ \<Rightarrow> NaN)"

definition sobelEdges :: "u8 list \<Rightarrow> nat \<Rightarrow> nat \<Rightarrow> real jsnum list" where
  "sobelEdges gray width height =
     (let edges = replicate (width * height) (Num 0)
      in fold (\<lambda>y. fold (\<lambda>x edges.
                 wr edges (y * int width + x)
                    (sobel_mag (sobel_grad gray (int width) sobelX x y)
                               (sobel_grad gray (int width) sobelY x y)))
               [1..int width - 2])
           [1..int height - 2] edges)"

section \<open>Radial gradient (\<^verbatim>\<open>createFallbackDepthMap\<close>, lines 266 to 278)\<close>

definition radial_value :: "nat \<Rightarrow> nat \<Rightarrow> int \<Rightarrow> int \<Rightarrow> real" where
  "radial_value width height x y =
     (let centerX = real width / 2;
          centerY = real height / 2;
          maxDist = sqrt (centerX * centerX + centerY * centerY);
          dx = of_int x - centerX;
          dy = of_int y - centerY;
          dist = sqrt (dx * dx + dy * dy)
      in 1 - dist / maxDist)"

definition radialBias :: "nat \<Rightarrow> nat \<Rightarrow> real jsnum list" where
  "radialBias width height =
     (let radial = replicate (width * height) (Num 0)
      in fold (\<lambda>y. fold (\<lambda>x radial.
                 wr radial (y * int width + x) (Num (radial_value width height x y)))
               [0..int width - 1])
           [0..int height - 1] radial)"

section \<open>The two pipelines (\<^verbatim>\<open>computeDepthMap\<close>, \<^verbatim>\<open>createFallbackDepthMap\<close>)\<close>

text \<open>
  The options objects: a missing property takes the default of the destructuring pattern.
\<close>

record options =
  opt_blockSize :: "int option"
  opt_maxDisparity :: "int option"
  opt_smoothing :: "bool option"
  opt_normalize :: "bool option"

record fallbackOptions =
  opt_centerBias :: "real option"
  opt_edgeWeight :: "real option"

text \<open>
  \<^verbatim>\<open>processedDisparity\<close> is a \<^verbatim>\<open>Float32Array\<close>, or the \<^verbatim>\<open>Uint8Array\<close> that
  \<^verbatim>\<open>normalizeArray\<close> returns.
\<close>

datatype field = F32 "real jsnum list" | U8 "u8 list"

text \<open>
  A store into the \<^verbatim>\<open>Uint8ClampedArray\<close> of an \<^verbatim>\<open>ImageData\<close>: NaN becomes 0, the value
  is clamped to 0 and 255 and rounded, a half to the even neighbour.
\<close>

definition toUint8Clamp :: "real jsnum \<Rightarrow> u8" where
  "toUint8Clamp v =
     (case v of
        NaN \<Rightarrow> 0
      | Num r \<Rightarrow> if r \<le> 0 then 0 else if 255 \<le> r then 255 else word_of_int (round_half_even r))"

definition field_bytes :: "field \<Rightarrow> u8 list" where
  "field_bytes f = (case f of F32 xs \<Rightarrow> map toUint8Clamp xs | U8 xs \<Rightarrow> xs)"

text \<open>The loop that replicates each value over R, G and B with full opacity.\<close>

definition fill_rgba :: "u8 list \<Rightarrow> nat \<Rightarrow> nat \<Rightarrow> u8 list" where
  "fill_rgba vals width height =
     fold (\<lambda>i data.
            (let val = vals ! i;
                 d0 = wr data (int i * 4) val;
                 d1 = wr d0 (int i * 4 + 1) val;
                 d2 = wr d1 (int i * 4 + 2) val
             in wr d2 (int i * 4 + 3) 255))
          [0..<length vals] (replicate (width * height * 4) 0)"

text \<open>
  The error taxonomy of the specification. The source has no statement that throws and
  validates nothing: both pipelines return on every input.
\<close>

datatype error = InvalidConfig | InvalidInput

record depthResult =
  depthData :: imageData
  disparityArray :: field

definition computeDepthMap :: "imageData \<Rightarrow> imageData \<Rightarrow> options \<Rightarrow> error + depthResult" where
  "computeDepthMap leftData rightData opts =
     (let blockSize = (case opt_blockSize opts of None \<Rightarrow> 9 | Some v \<Rightarrow> v);
          maxDisparity = (case opt_maxDisparity opts of None \<Rightarrow> 64 | Some v \<Rightarrow> v);
          smoothing = (case opt_smoothing opts of None \<Rightarrow> True | Some v \<Rightarrow> v);
          normalize = (case opt_normalize opts of None \<Rightarrow> True | Some v \<Rightarrow> v);
          width = im_width leftData;
          height = im_height leftData;
          leftGray = toGrayscale leftData;
          rightGray = toGrayscale rightData;
          disparity = blockMatch leftGray rightGray width height blockSize maxDisparity;
          processedDisparity =
            (if smoothing
             then gaussianBlur (medianFilter disparity width height 3) width height 2
             else map Num disparity);
          out = (if normalize then U8 (normalizeArray (map xnum_of processedDisparity))
                 else F32 processedDisparity)
      in Inr \<lparr>depthData = \<lparr>im_width = width, im_height = height,
                             im_data = fill_rgba (field_bytes out) width height\<rparr>,
              disparityArray = out\<rparr>)"

definition createFallbackDepthMap :: "imageData \<Rightarrow> fallbackOptions \<Rightarrow> error + imageData" where
  "createFallbackDepthMap imageData opts =
     (let centerBias = (case opt_centerBias opts of None \<Rightarrow> 0.3 | Some v \<Rightarrow> v);
          edgeWeight = (case opt_edgeWeight opts of None \<Rightarrow> 0.5 | Some v \<Rightarrow> v);
          width = im_width imageData;
          height = im_height imageData;
          gray = toGrayscale imageData;
          edges = sobelEdges gray width height;
          radial = radialBias width height;
          depth = map (\<lambda>i. js_add (js_mul (rdn edges (int i)) (Num edgeWeight))
                                   (js_mul (rdn radial (int i)) (Num centerBias)))
                      [0..<width * height];
          smoothed = gaussianBlur depth width height 5;
          normalized = normalizeArray (map xnum_of smoothed)
      in Inr \<lparr>im_width = width, im_height = height,
               im_data = fill_rgba normalized width height\<rparr>)"

section \<open>Notions used to state the properties\<close>

text \<open>
  The sum of absolute differences as a sum over the window, for buffers that hold the
  whole field: the cost of candidate \<open>d\<close> at pixel \<open>(x, y)\<close>.
\<close>

definition sad_sum :: "u8 list \<Rightarrow> u8 list \<Rightarrow> int \<Rightarrow> int \<Rightarrow> int \<Rightarrow> int \<Rightarrow> int \<Rightarrow> int" where
  "sad_sum left right width half x y d =
     (\<Sum>by \<in> {- half..half}. \<Sum>bx \<in> {- half..half}.
        \<bar>uint (left ! nat ((y + by) * width + (x + bx)))
          - uint (right ! nat ((y + by) * width + (x + bx - d)))\<bar>)"

text \<open>\<open>d\<close> is the smallest candidate in \<open>0..hi\<close> of minimal cost.\<close>

definition first_minimiser :: "(int \<Rightarrow> int) \<Rightarrow> int \<Rightarrow> int \<Rightarrow> bool" where
  "first_minimiser cost hi d \<longleftrightarrow>
     0 \<le> d \<and> d \<le> hi \<and> (\<forall>d' \<in> {0..hi}. cost d \<le> cost d') \<and> (\<forall>d' \<in> {0..<d}. cost d < cost d')"

definition interior :: "nat \<Rightarrow> nat \<Rightarrow> int \<Rightarrow> nat \<Rightarrow> nat \<Rightarrow> bool" where
  "interior W H half x y \<longleftrightarrow>
     half \<le> int x \<and> int x < int W - half \<and> half \<le> int y \<and> int y < int H - half"


text \<open>A field holds one single value.\<close>

definition is_constant :: "real list \<Rightarrow> bool" where
  "is_constant xs \<longleftrightarrow> (\<forall>v \<in> set xs. \<forall>w \<in> set xs. v = w)"

text \<open>An image of one grey level, fully opaque.\<close>

definition gray_image :: "nat \<Rightarrow> nat \<Rightarrow> u8 \<Rightarrow> imageData" where
  "gray_image W H v =
     \<lparr>im_width = W, im_height = H, im_data = concat (replicate (W * H) [v, v, v, 255])\<rparr>"

text \<open>The number of elements of a field.\<close>

definition field_length :: "field \<Rightarrow> nat" where
  "field_length f = (case f of F32 xs \<Rightarrow> length xs | U8 xs \<Rightarrow> length xs)"

text \<open>A missing option takes its default.\<close>

definition resolve :: "'a \<Rightarrow> 'a option \<Rightarrow> 'a" where
  "resolve d v = (case v of None \<Rightarrow> d | Some x \<Rightarrow> x)"

text \<open>
  The stereo pipeline as the specification words it: block matcher, then median filter
  (kernel 3) and Gaussian blur (sigma 2) when smoothing is on, then the normaliser when
  normalisation is on.
\<close>

definition stereo_stages ::
  "u8 list \<Rightarrow> u8 list \<Rightarrow> nat \<Rightarrow> nat \<Rightarrow> int \<Rightarrow> int \<Rightarrow> bool \<Rightarrow> bool \<Rightarrow> field" where
  "stereo_stages gl gr W H bs md sm nm =
     (let d = blockMatch gl gr W H bs md;
          p = (if sm then gaussianBlur (medianFilter d W H 3) W H 2 else map Num d)
      in if nm then U8 (normalizeArray (map xnum_of p)) else F32 p)"

definition stereo_result :: "imageData \<Rightarrow> imageData \<Rightarrow> int \<Rightarrow> int \<Rightarrow> bool \<Rightarrow> bool \<Rightarrow> depthResult" where
  "stereo_result l r bs md sm nm =
     (let W = im_width l; H = im_height l;
          out = stereo_stages (toGrayscale l) (toGrayscale r) W H bs md sm nm
      in \<lparr>depthData = \<lparr>im_width = W, im_height = H, im_data = fill_rgba (field_bytes out) W H\<rparr>,
          disparityArray = out\<rparr>)"

text \<open>The body of the loop of \<open>fill_rgba\<close>, for index \<open>i\<close>.\<close>

definition rgba_step :: "u8 list \<Rightarrow> nat \<Rightarrow> u8 list \<Rightarrow> u8 list" where
  "rgba_step vals i data =
     wr (wr (wr (wr data (int i * 4) (vals ! i)) (int i * 4 + 1) (vals ! i))
            (int i * 4 + 2) (vals ! i)) (int i * 4 + 3) 255"

section \<open>Loops that fill an array\<close>

lemma length_wr [simp]: "length (wr a i v) = length a"
  by (simp add: wr_def)

lemma cell_bound:
  fixes r c :: int
  assumes "0 \<le> r" "r < int H" "0 \<le> c" "c < int W"
  shows "0 \<le> r * int W + c" and "r * int W + c < int (W * H)"
proof -
  show "0 \<le> r * int W + c" using assms by simp
  have "r + 1 \<le> int H" using assms by simp
  then have "(r + 1) * int W \<le> int H * int W"
    by (intro mult_right_mono) simp_all
  moreover have "r * int W + c < (r + 1) * int W"
    using assms by (simp add: algebra_simps)
  ultimately show "r * int W + c < int (W * H)"
    by (simp add: mult.commute)
qed

lemma nth_wr: "wr a i v ! k = (if i = int k \<and> k < length a then v else a ! k)"
  by (auto simp: wr_def nth_list_update)

lemma fold_rows_cols:
  "fold (\<lambda>y. fold (F y) xs) ys = fold (\<lambda>p. F (fst p) (snd p)) (List.product ys xs)"
  by (induction ys) (simp_all add: fold_map comp_def)

lemma length_fold_wr [simp]:
  "length (fold (\<lambda>p a. wr a (f p) (g p)) ps a) = length a"
  by (induction ps arbitrary: a) simp_all

lemma fold_wr_miss:
  "\<forall>p \<in> set ps. f p \<noteq> int k \<Longrightarrow> fold (\<lambda>p a. wr a (f p) (g p)) ps a ! k = a ! k"
  by (induction ps arbitrary: a) (auto simp: nth_wr)

lemma fold_wr_hit:
  assumes "inj_on f (set ps)" "p \<in> set ps" "f p = int k" "k < length a"
  shows "fold (\<lambda>p a. wr a (f p) (g p)) ps a ! k = g p"
  using assms
proof (induction ps arbitrary: p rule: rev_induct)
  case Nil
  then show ?case by simp
next
  case (snoc q qs)
  show ?case
  proof (cases "f q = int k")
    case True
    have "q = p"
      by (rule inj_onD [OF snoc.prems(1)]) (use True snoc.prems in auto)
    with True snoc.prems(4) show ?thesis by (simp add: nth_wr)
  next
    case False
    with snoc.prems have "p \<in> set qs" by auto
    moreover have "inj_on f (set qs)" using snoc.prems(1) by (auto intro: inj_on_subset)
    ultimately have "fold (\<lambda>p a. wr a (f p) (g p)) qs a ! k = g p"
      using snoc.IH snoc.prems by blast
    with False show ?thesis by (simp add: nth_wr)
  qed
qed

lemma cell_index_inj:
  fixes x x' y y' :: int
  assumes "0 \<le> x" "x < W" "0 \<le> x'" "x' < W" "y * W + x = y' * W + x'"
  shows "y = y' \<and> x = x'"
proof -
  have "0 < W" using assms by linarith
  then have "(y * W + x) div W = y" "(y' * W + x') div W = y'"
    using assms(1-4) by (simp_all add: div_pos_pos_trivial)
  with assms(5) have "y = y'" by metis
  with assms(5) show ?thesis by simp
qed

text \<open>The value of a cell after a loop nest that writes \<open>g x y\<close> at index \<open>y * W + x\<close>.\<close>

lemma grid_length [simp]:
  "length (fold (\<lambda>y. fold (\<lambda>x a. wr a (y * W + x) (g x y)) xs) ys a) = length a"
  by (simp add: fold_rows_cols)

lemma grid_hit:
  assumes "\<forall>x \<in> set xs. 0 \<le> x \<and> x < W" "y \<in> set ys" "x \<in> set xs"
    and "y * W + x = int k" "k < length a"
  shows "fold (\<lambda>y. fold (\<lambda>x a. wr a (y * W + x) (g x y)) xs) ys a ! k = g x y"
proof -
  let ?f = "\<lambda>p. fst p * W + snd p"
  have inj: "inj_on ?f (set (List.product ys xs))"
  proof (rule inj_onI)
    fix p q assume "p \<in> set (List.product ys xs)" "q \<in> set (List.product ys xs)" "?f p = ?f q"
    then show "p = q"
      using assms(1) cell_index_inj [of "snd p" W "snd q" "fst p" "fst q"]
      by (auto simp: prod_eq_iff)
  qed
  have "fold (\<lambda>p a. wr a (?f p) (g (snd p) (fst p))) (List.product ys xs) a ! k = g (snd (y, x)) (fst (y, x))"
    by (rule fold_wr_hit [OF inj]) (use assms in auto)
  then show ?thesis by (simp add: fold_rows_cols)
qed

lemma grid_miss:
  assumes "\<forall>y \<in> set ys. \<forall>x \<in> set xs. y * W + x \<noteq> int k"
  shows "fold (\<lambda>y. fold (\<lambda>x a. wr a (y * W + x) (g x y)) xs) ys a ! k = a ! k"
proof -
  have "fold (\<lambda>p a. wr a (fst p * W + snd p) (g (snd p) (fst p))) (List.product ys xs) a ! k = a ! k"
    by (rule fold_wr_miss) (use assms in auto)
  then show ?thesis by (simp add: fold_rows_cols)
qed

section \<open>Block matching: the samples read\<close>

lemma window_mem:
  "(r, cl, cr) \<in> set (window h x y d) \<Longrightarrow>
     (\<exists>by bx. - h \<le> by \<and> by \<le> h \<and> - h \<le> bx \<and> bx \<le> h \<and> r = y + by \<and> cl = x + bx \<and> cr = x + bx - d)"
  by (auto simp: window_def)

lemma reads_in_field:
  assumes "(r, cl, cr) \<in> set (blockMatch_reads W H bs md)"
  shows "0 \<le> r \<and> r < int H \<and> 0 \<le> cr \<and> cr \<le> cl \<and> cl < int W"
  using assms by (auto simp: blockMatch_reads_def Let_def maxD_def dest!: window_mem)


text \<open>
  Claim C10. Every sample the block matcher reads lies inside the field: its row is in
  \<open>0..<H\<close>, its left column \<open>x + bx\<close> and its right column \<open>x + bx - d\<close> are in \<open>0..<W\<close>
  (the right column is never negative), so both buffer indices are in \<open>0..<W * H\<close>
  and, for buffers of length at least \<open>W * H\<close>, neither read is undefined. This holds for
  every block size and every maximal disparity.
\<close>

theorem blockMatch_reads_in_bounds:
  assumes "W * H \<le> length left" "W * H \<le> length right"
    and "(r, cl, cr) \<in> set (blockMatch_reads W H blockSize maxDisparity)"
  shows "0 \<le> cr \<and> cr < int W \<and> 0 \<le> cl \<and> cl < int W \<and> 0 \<le> r \<and> r < int H
       \<and> 0 \<le> leftIdx (int W) (r, cl, cr) \<and> leftIdx (int W) (r, cl, cr) < int (W * H)
       \<and> 0 \<le> rightIdx (int W) (r, cl, cr) \<and> rightIdx (int W) (r, cl, cr) < int (W * H)
       \<and> rd left (leftIdx (int W) (r, cl, cr)) \<noteq> None
       \<and> rd right (rightIdx (int W) (r, cl, cr)) \<noteq> None"
proof -
  have c: "0 \<le> r" "r < int H" "0 \<le> cr" "cr \<le> cl" "cl < int W"
    using reads_in_field [OF assms(3)] by simp_all
  then have c': "0 \<le> cl" "cr < int W" by simp_all
  have l: "0 \<le> r * int W + cl" "r * int W + cl < int (W * H)"
    using cell_bound [of r H cl W] c c' by simp_all
  have r: "0 \<le> r * int W + cr" "r * int W + cr < int (W * H)"
    using cell_bound [of r H cr W] c c' by simp_all
  have "r * int W + cl < int (length left)" "r * int W + cr < int (length right)"
    using l r assms(1,2) by linarith+
  with c c' l r show ?thesis
    by (simp add: leftIdx_def rightIdx_def rd_def)
qed

theorem blockMatch_reads_in_bounds_witness:
  "(1, 2, 1) \<in> set (blockMatch_reads 4 3 3 1)
   \<and> rd (replicate 12 (7 :: u8)) (rightIdx 4 (1, 2, 1)) \<noteq> None
   \<and> rightIdx 4 (1, 2, 1) < 12"
proof -
  have m: "(1, 2, 1) \<in> set (blockMatch_reads 4 3 3 1)"
    by code_simp
  have "4 * 3 \<le> length (replicate 12 (7 :: u8))" by simp
  from blockMatch_reads_in_bounds [OF this this m] m show ?thesis by simp
qed

section \<open>Block matching: the sum of absolute differences\<close>

lemma js_add_NaN_left [simp]: "js_add NaN v = NaN"
  by (cases v) simp_all

lemma js_add_NaN_right [simp]: "js_add v NaN = NaN"
  by (cases v) simp_all

lemma fold_js_add_from_NaN [simp]: "fold (\<lambda>p s. js_add s (F p)) ps NaN = NaN"
  by (induction ps) simp_all

lemma fold_js_add_Num:
  "\<forall>p \<in> set ps. F p = Num (c p) \<Longrightarrow>
   fold (\<lambda>p s. js_add s (F p)) ps (Num a) = Num (a + sum_list (map c ps))"
  by (induction ps arbitrary: a) (simp_all add: add.assoc)

lemma fold_js_add_NaN:
  "p \<in> set ps \<Longrightarrow> F p = NaN \<Longrightarrow> fold (\<lambda>p s. js_add s (F p)) ps s = NaN"
  by (induction ps arbitrary: s) auto

lemma fold_js_add_nonneg:
  fixes a :: int
  assumes "\<forall>p \<in> set ps. \<forall>v. F p = Num v \<longrightarrow> 0 \<le> v" "0 \<le> a"
    and "fold (\<lambda>p s. js_add s (F p)) ps (Num a) = Num s"
  shows "0 \<le> s"
  using assms
proof (induction ps arbitrary: a)
  case Nil
  then show ?case by simp
next
  case (Cons p ps)
  show ?case
  proof (cases "F p")
    case (Num v)
    with Cons.prems have "0 \<le> a + v" by simp
    moreover have "fold (\<lambda>p s. js_add s (F p)) ps (Num (a + v)) = Num s"
      using Cons.prems(3) Num by simp
    ultimately show ?thesis using Cons.IH Cons.prems(1) by simp
  next
    case NaN
    with Cons.prems(3) show ?thesis by simp
  qed
qed

lemma absdiff_nonneg: "absdiff l r = Num v \<Longrightarrow> 0 \<le> v"
  by (cases l; cases r) auto

lemma sad_nonneg: "sad left right W h x y d = Num s \<Longrightarrow> 0 \<le> s"
  unfolding sad_def
  by (rule fold_js_add_nonneg [where a = 0]) (auto dest: absdiff_nonneg)

lemma sum_list_concat_map:
  fixes f :: "'a \<Rightarrow> int list"
  shows "sum_list (concat (map f xs)) = sum_list (map (\<lambda>x. sum_list (f x)) xs)"
  by (induction xs) simp_all

lemma sum_list_window:
  fixes c :: "int \<times> int \<times> int \<Rightarrow> int"
  shows "sum_list (map c (window h x y d)) =
    (\<Sum>by \<in> {- h..h}. \<Sum>bx \<in> {- h..h}. c (y + by, x + bx, x + bx - d))"
proof -
  have "sum_list (map c (window h x y d)) =
      sum_list (map (\<lambda>by. sum_list (map (\<lambda>bx. c (y + by, x + bx, x + bx - d)) [- h..h])) [- h..h])"
    by (simp add: window_def map_concat sum_list_concat_map comp_def)
  also have "\<dots> = (\<Sum>by \<in> {- h..h}. \<Sum>bx \<in> {- h..h}. c (y + by, x + bx, x + bx - d))"
    by (simp add: sum_list_distinct_conv_sum_set)
  finally show ?thesis .
qed

lemma window_set:
  "set (window h x y d) = (\<lambda>(by, bx). (y + by, x + bx, x + bx - d)) ` ({- h..h} \<times> {- h..h})"
  by (auto simp: window_def image_iff)

text \<open>With every sample inside both buffers the SAD is the sum over the window.\<close>

lemma sad_in_range:
  assumes "\<forall>p \<in> set (window h x y d).
             0 \<le> leftIdx W p \<and> leftIdx W p < int (length left)
           \<and> 0 \<le> rightIdx W p \<and> rightIdx W p < int (length right)"
  shows "sad left right W h x y d = Num (sad_sum left right W h x y d)"
proof -
  let ?c = "\<lambda>p. \<bar>uint (left ! nat (leftIdx W p)) - uint (right ! nat (rightIdx W p))\<bar>"
  have "sad left right W h x y d = Num (0 + sum_list (map ?c (window h x y d)))"
    unfolding sad_def
    by (rule fold_js_add_Num) (use assms in \<open>auto simp: rd_def\<close>)
  also have "sum_list (map ?c (window h x y d)) = sad_sum left right W h x y d"
    by (simp add: sum_list_window sad_sum_def leftIdx_def rightIdx_def)
  finally show ?thesis by simp
qed


section \<open>Block matching: the search\<close>

lemma fold_fixed: "\<forall>x \<in> set xs. f x s = s \<Longrightarrow> fold f xs s = s"
  by (induction xs) simp_all

lemma search_step_NaN: "sad left right W h x y d = NaN \<Longrightarrow> search_step left right W h x y d st = st"
  by (simp add: search_step_def)

lemma search_step_at_zero: "search_step left right W h x y d (0, Some 0) = (0, Some 0)"
  by (cases "sad left right W h x y d") (auto simp: search_step_def dest: sad_nonneg)

lemma first_minimiser_zero: "first_minimiser c 0 0"
  by (simp add: first_minimiser_def)

lemma first_minimiser_keep:
  assumes "first_minimiser c hi d" "0 \<le> hi" "c d \<le> c (hi + 1)"
  shows "first_minimiser c (hi + 1) d"
proof -
  have "{0..hi + 1} = insert (hi + 1) {0..hi}" using assms(2) by auto
  with assms show ?thesis by (auto simp: first_minimiser_def)
qed

lemma first_minimiser_new:
  assumes "first_minimiser c hi d" "0 \<le> hi" "c (hi + 1) < c d"
  shows "first_minimiser c (hi + 1) (hi + 1)"
proof -
  have "{0..hi + 1} = insert (hi + 1) {0..hi}" "{0..<hi + 1} = {0..hi}"
    using assms(2) by auto
  with assms show ?thesis by (fastforce simp: first_minimiser_def)
qed

lemma search_first_minimiser:
  assumes "0 \<le> hi" "\<forall>d \<in> {0..hi}. sad left right W h x y d = Num (c d)"
  shows "\<exists>d. fold (search_step left right W h x y) [0..hi] (0, None) = (d, Some (c d))
            \<and> first_minimiser c hi d"
  using assms
proof (induction hi rule: int_ge_induct)
  case base
  then show ?case
    by (simp add: upto_rec1 [of 0 0] search_step_def first_minimiser_zero)
next
  case (step i)
  then obtain d where d: "fold (search_step left right W h x y) [0..i] (0, None) = (d, Some (c d))"
    "first_minimiser c i d" by auto
  have s: "sad left right W h x y (i + 1) = Num (c (i + 1))" using step by simp
  have u: "[0..i + 1] = [0..i] @ [i + 1]" using step(1) by (simp add: upto_rec2)
  show ?case
  proof (cases "c (i + 1) < c d")
    case True
    then have "fold (search_step left right W h x y) [0..i + 1] (0, None) = (i + 1, Some (c (i + 1)))"
      by (simp add: u d s search_step_def)
    with first_minimiser_new [OF d(2) step(1) True] show ?thesis by blast
  next
    case False
    then have "fold (search_step left right W h x y) [0..i + 1] (0, None) = (d, Some (c d))"
      by (simp add: u d s search_step_def)
    with first_minimiser_keep [OF d(2) step(1)] False show ?thesis by auto
  qed
qed

text \<open>Identical fields: the search never leaves candidate 0.\<close>

lemma absdiff_same: "v \<noteq> None \<Longrightarrow> absdiff v v = Num 0"
  by (cases v) simp_all

lemma sad_identical_all_read:
  assumes "\<forall>p \<in> set (window h x y 0). rd g (leftIdx W p) \<noteq> None"
  shows "sad g g W h x y 0 = Num 0"
proof -
  have "\<forall>p \<in> set (window h x y 0).
          absdiff (rd g (leftIdx W p)) (rd g (rightIdx W p)) = Num ((\<lambda>p. 0) p)"
  proof
    fix p assume p: "p \<in> set (window h x y 0)"
    then have "rightIdx W p = leftIdx W p"
      by (auto simp: window_set leftIdx_def rightIdx_def)
    with assms p show "absdiff (rd g (leftIdx W p)) (rd g (rightIdx W p)) = Num ((\<lambda>p. 0) p)"
      by (simp add: absdiff_same)
  qed
  then have "sad g g W h x y 0 = Num (0 + sum_list (map (\<lambda>p. 0) (window h x y 0)))"
    unfolding sad_def by (rule fold_js_add_Num)
  then show ?thesis by simp
qed

lemma sad_identical_zero:
  "sad g g W h x y 0 = Num 0 \<or> sad g g W h x y 0 = NaN"
proof (cases "\<forall>p \<in> set (window h x y 0). rd g (leftIdx W p) \<noteq> None")
  case True
  then show ?thesis by (simp add: sad_identical_all_read)
next
  case False
  then obtain p where "p \<in> set (window h x y 0)" "rd g (leftIdx W p) = None" by auto
  then have "sad g g W h x y 0 = NaN"
    unfolding sad_def by (intro fold_js_add_NaN [of p]) simp_all
  then show ?thesis by simp
qed

lemma sad_identical_NaN:
  assumes "sad g g W h x y 0 = NaN"
  shows "sad g g W h x y d = NaN"
proof -
  have "\<exists>p \<in> set (window h x y 0). rd g (leftIdx W p) = None"
    using assms sad_identical_all_read [of h x y g W] by fastforce
  then obtain ky kx where b: "ky \<in> {- h..h}" "kx \<in> {- h..h}"
    and n: "rd g ((y + ky) * W + (x + kx)) = None"
    by (auto simp: window_set leftIdx_def)
  have "(y + ky, x + kx, x + kx - d) \<in> set (window h x y d)"
    using b by (auto simp: window_set)
  then show ?thesis
    unfolding sad_def
    by (rule fold_js_add_NaN) (simp add: n leftIdx_def)
qed

lemma bestDisparity_identical: "bestDisparity g g W h md x y = 0"
proof (cases "0 \<le> maxD md h x")
  case False
  then show ?thesis by (simp add: bestDisparity_def)
next
  case True
  then have u: "[0..maxD md h x] = 0 # [1..maxD md h x]"
    by (simp add: upto_rec1)
  from sad_identical_zero [of g W h x y] show ?thesis
  proof
    assume z: "sad g g W h x y 0 = Num 0"
    then have "search_step g g W h x y 0 (0, None) = (0, Some 0)"
      by (simp add: search_step_def)
    moreover have "fold (search_step g g W h x y) [1..maxD md h x] (0, Some 0) = (0, Some 0)"
      by (rule fold_fixed) (simp add: search_step_at_zero)
    ultimately show ?thesis by (simp add: bestDisparity_def u)
  next
    assume "sad g g W h x y 0 = NaN"
    then have "\<forall>d \<in> set [0..maxD md h x]. search_step g g W h x y d (0, None) = (0, None)"
      by (simp add: sad_identical_NaN search_step_NaN)
    then have "fold (search_step g g W h x y) [0..maxD md h x] (0, None) = (0, None)"
      by (rule fold_fixed)
    then show ?thesis by (simp add: bestDisparity_def)
  qed
qed

lemma wr_replicate_same: "wr (replicate n v) i v = replicate n v"
  by (rule nth_equalityI) (simp_all add: nth_wr)

lemma fold_wr_const: "fold (\<lambda>p a. wr a (f p) v) ps (replicate n v) = replicate n v"
  by (induction ps) (simp_all add: wr_replicate_same)

lemma grid_const:
  assumes "\<And>x y. g x y = v"
  shows "fold (\<lambda>y. fold (\<lambda>x a. wr a (y * W + x) (g x y)) xs) ys (replicate n v) = replicate n v"
  by (simp add: fold_rows_cols assms fold_wr_const)

lemma blockMatch_same_field:
  "blockMatch g g W H blockSize maxDisparity = replicate (W * H) 0"
  unfolding blockMatch_def Let_def
  by (rule grid_const) (simp add: bestDisparity_identical)

text \<open>
  Claim C3. With the same buffer as left and right field the block matcher returns the
  all-zero disparity field: disparity 0 at every interior pixel, and 0 at the border.
  This holds for every buffer, block size and maximal disparity.
\<close>

theorem blockMatch_identical:
  "blockMatch g g W H blockSize maxDisparity = replicate (W * H) 0"
  by (rule blockMatch_same_field)


section \<open>Block matching: the result at each pixel\<close>

lemma window_in_field:
  assumes "0 \<le> h" "h \<le> x" "x < int W - h" "h \<le> y" "y < int H - h" "0 \<le> d" "d \<le> x - h"
    and "p \<in> set (window h x y d)"
  shows "0 \<le> leftIdx (int W) p \<and> leftIdx (int W) p < int (W * H)
       \<and> 0 \<le> rightIdx (int W) p \<and> rightIdx (int W) p < int (W * H)"
proof -
  obtain r cl cr where p: "p = (r, cl, cr)" by (cases p)
  with assms(8) obtain ky kx where k: "- h \<le> ky" "ky \<le> h" "- h \<le> kx" "kx \<le> h"
    "r = y + ky" "cl = x + kx" "cr = x + kx - d"
    by (auto dest!: window_mem)
  have c: "0 \<le> r" "r < int H" "0 \<le> cl" "cl < int W" "0 \<le> cr" "cr < int W"
    using k assms(1-7) by simp_all
  show ?thesis
    using cell_bound [of r H cl W] cell_bound [of r H cr W] c
    by (simp add: p leftIdx_def rightIdx_def)
qed

lemma bestDisparity_first_minimiser:
  assumes "length left = W * H" "length right = W * H"
    and "0 \<le> h" "h \<le> x" "x < int W - h" "h \<le> y" "y < int H - h" "0 \<le> md"
  shows "first_minimiser (sad_sum left right (int W) h x y) (min md (x - h))
           (bestDisparity left right (int W) h md x y)"
proof -
  let ?hi = "min md (x - h)"
  have hi: "0 \<le> ?hi" using assms by simp
  have "\<forall>d \<in> {0..?hi}. sad left right (int W) h x y d = Num (sad_sum left right (int W) h x y d)"
  proof
    fix d assume d: "d \<in> {0..?hi}"
    show "sad left right (int W) h x y d = Num (sad_sum left right (int W) h x y d)"
    proof (rule sad_in_range, rule ballI)
      fix p assume "p \<in> set (window h x y d)"
      with window_in_field [of h x W y H d p] assms d
      show "0 \<le> leftIdx (int W) p \<and> leftIdx (int W) p < int (length left)
          \<and> 0 \<le> rightIdx (int W) p \<and> rightIdx (int W) p < int (length right)"
        by simp
    qed
  qed
  from search_first_minimiser [OF hi this] show ?thesis
    by (auto simp: bestDisparity_def maxD_def)
qed

lemma blockMatch_interior:
  assumes "0 \<le> h" "h \<le> int x" "int x < int W - h" "h \<le> int y" "int y < int H - h"
  shows "fold (\<lambda>y. fold (\<lambda>x a. wr a (y * int W + x) (g x y)) [h..int W - h - 1])
           [h..int H - h - 1] (replicate (W * H) v) ! (y * W + x) = g (int x) (int y)"
proof (rule grid_hit)
  show "\<forall>x \<in> set [h..int W - h - 1]. 0 \<le> x \<and> x < int W" using assms(1) by auto
  show "int y \<in> set [h..int H - h - 1]" "int x \<in> set [h..int W - h - 1]" using assms by auto
  show "int y * int W + int x = int (y * W + x)" by simp
  have "int y * int W + int x < int (W * H)"
    by (rule cell_bound) (use assms in auto)
  then show "y * W + x < length (replicate (W * H) v)" by (simp del: of_nat_mult of_nat_add) (metis of_nat_add of_nat_mult of_nat_less_iff)
qed

lemma blockMatch_border:
  assumes "0 \<le> h" "x < W" "\<not> (h \<le> int x \<and> int x < int W - h \<and> h \<le> int y \<and> int y < int H - h)"
  shows "fold (\<lambda>y. fold (\<lambda>x a. wr a (y * int W + x) (g x y)) [h..int W - h - 1])
           [h..int H - h - 1] (replicate (W * H) v) ! (y * W + x) = replicate (W * H) v ! (y * W + x)"
proof (rule grid_miss, intro ballI notI)
  fix y' x' assume m: "y' \<in> set [h..int H - h - 1]" "x' \<in> set [h..int W - h - 1]"
    and e: "y' * int W + x' = int (y * W + x)"
  have "y' * int W + x' = int y * int W + int x" using e by simp
  then have "y' = int y \<and> x' = int x"
    by (rule cell_index_inj [rotated 4]) (use m assms(1,2) in auto)
  with m assms(3) show False by auto
qed

lemma blockMatch_half_spec:
  assumes "length left = W * H" "length right = W * H"
    and "0 \<le> blockSize div 2" "0 \<le> maxDisparity" "x < W" "y < H"
  shows "if interior W H (blockSize div 2) x y
         then \<exists>d. blockMatch left right W H blockSize maxDisparity ! (y * W + x) = of_int d
                \<and> first_minimiser
                     (sad_sum left right (int W) (blockSize div 2) (int x) (int y))
                     (min maxDisparity (int x - blockSize div 2)) d
         else blockMatch left right W H blockSize maxDisparity ! (y * W + x) = 0"
proof -
  let ?h = "blockSize div 2"
  have yx: "y * W + x < W * H"
    using cell_bound(2) [of "int y" H "int x" W] assms(5,6)
    by (simp del: of_nat_mult of_nat_add) (metis of_nat_add of_nat_mult of_nat_less_iff)
  show ?thesis
  proof (cases "interior W H ?h x y")
    case True
    then have i: "?h \<le> int x" "int x < int W - ?h" "?h \<le> int y" "int y < int H - ?h"
      by (simp_all add: interior_def)
    have "blockMatch left right W H blockSize maxDisparity ! (y * W + x)
        = of_int (bestDisparity left right (int W) ?h maxDisparity (int x) (int y))"
      unfolding blockMatch_def Let_def by (rule blockMatch_interior [OF assms(3) i])
    moreover note bestDisparity_first_minimiser [OF assms(1,2,3) i assms(4)]
    ultimately show ?thesis using True by auto
  next
    case False
    then have "\<not> (?h \<le> int x \<and> int x < int W - ?h \<and> ?h \<le> int y \<and> int y < int H - ?h)"
      by (simp add: interior_def)
    then have "blockMatch left right W H blockSize maxDisparity ! (y * W + x)
        = replicate (W * H) 0 ! (y * W + x)"
      unfolding blockMatch_def Let_def by (rule blockMatch_border [OF assms(3,5)])
    with yx False show ?thesis by simp
  qed
qed

text \<open>
  Claim C2. For two greyscale fields of \<open>W * H\<close> samples, an odd block size of at least 1
  and a maximal disparity of at least 0, with \<open>half = (blockSize - 1) div 2\<close>: at an
  interior pixel \<open>(x, y)\<close> the disparity is the smallest \<open>d\<close> in \<open>0..min maxDisparity (x - half)\<close>
  that minimises the sum of absolute differences between the window at \<open>(x, y)\<close> in the
  left field and the window at \<open>(x - d, y)\<close> in the right field; at every other pixel
  the disparity is 0.
\<close>

theorem blockMatch_spec:
  assumes "length left = W * H" "length right = W * H"
    and "odd blockSize" "1 \<le> blockSize" "0 \<le> maxDisparity" "x < W" "y < H"
  shows "if interior W H ((blockSize - 1) div 2) x y
         then \<exists>d. blockMatch left right W H blockSize maxDisparity ! (y * W + x) = of_int d
                \<and> first_minimiser
                     (sad_sum left right (int W) ((blockSize - 1) div 2) (int x) (int y))
                     (min maxDisparity (int x - (blockSize - 1) div 2)) d
         else blockMatch left right W H blockSize maxDisparity ! (y * W + x) = 0"
proof -
  let ?h = "blockSize div 2"
  have h: "(blockSize - 1) div 2 = ?h" "0 \<le> ?h" using assms(3,4) by presburger+
  have yx: "y * W + x < W * H"
    using cell_bound(2) [of "int y" H "int x" W] assms(6,7)
    by (simp del: of_nat_mult of_nat_add) (metis of_nat_add of_nat_mult of_nat_less_iff)
  show ?thesis
  proof (cases "interior W H ?h x y")
    case True
    then have i: "?h \<le> int x" "int x < int W - ?h" "?h \<le> int y" "int y < int H - ?h"
      by (simp_all add: interior_def)
    have "blockMatch left right W H blockSize maxDisparity ! (y * W + x)
        = of_int (bestDisparity left right (int W) ?h maxDisparity (int x) (int y))"
      unfolding blockMatch_def Let_def by (rule blockMatch_interior [OF h(2) i])
    moreover note bestDisparity_first_minimiser [OF assms(1,2) h(2) i assms(5)]
    ultimately show ?thesis using True h(1) by auto
  next
    case False
    then have "\<not> (?h \<le> int x \<and> int x < int W - ?h \<and> ?h \<le> int y \<and> int y < int H - ?h)"
      by (simp add: interior_def)
    then have "blockMatch left right W H blockSize maxDisparity ! (y * W + x)
        = replicate (W * H) 0 ! (y * W + x)"
      unfolding blockMatch_def Let_def by (rule blockMatch_border [OF h(2) assms(6)])
    with yx False h(1) show ?thesis by simp
  qed
qed

theorem blockMatch_spec_witness:
  "interior 4 3 ((3 - 1) div 2) 2 1
   \<and> (\<exists>d. blockMatch [10, 20, 30, 40, 50, 60, 70, 80, 90, 100, 110, 120]
               [20, 30, 40, 0, 60, 70, 80, 0, 100, 110, 120, 0] 4 3 3 1 ! (1 * 4 + 2) = of_int d
          \<and> first_minimiser
               (sad_sum [10, 20, 30, 40, 50, 60, 70, 80, 90, 100, 110, 120]
                  [20, 30, 40, 0, 60, 70, 80, 0, 100, 110, 120, 0] 4 ((3 - 1) div 2) 2 1)
               (min 1 (2 - (3 - 1) div 2)) d)
   \<and> \<not> interior 4 3 ((3 - 1) div 2) 3 1
   \<and> blockMatch [10, 20, 30, 40, 50, 60, 70, 80, 90, 100, 110, 120]
        [20, 30, 40, 0, 60, 70, 80, 0, 100, 110, 120, 0] 4 3 3 1 ! (1 * 4 + 3) = 0"
  using blockMatch_spec [of "[10, 20, 30, 40, 50, 60, 70, 80, 90, 100, 110, 120]" 4 3
      "[20, 30, 40, 0, 60, 70, 80, 0, 100, 110, 120, 0]" 3 1 2 1]
    blockMatch_spec [of "[10, 20, 30, 40, 50, 60, 70, 80, 90, 100, 110, 120]" 4 3
      "[20, 30, 40, 0, 60, 70, 80, 0, 100, 110, 120, 0]" 3 1 3 1]
  by (simp add: interior_def)

section \<open>Floating-point rounding\<close>

lemma fl_unfold:
  "x \<noteq> 0 \<Longrightarrow> fl p x = of_int (round_half_even (x / 2 powi (\<lfloor>log 2 \<bar>x\<bar>\<rfloor> - (int p - 1))))
                        * 2 powi (\<lfloor>log 2 \<bar>x\<bar>\<rfloor> - (int p - 1))"
  by (simp add: fl_def Let_def)

lemma rhe_int [simp]: "round_half_even (of_int n) = n"
  by (simp add: round_half_even_def)

lemma rhe_floor: "\<lfloor>x\<rfloor> \<le> round_half_even x \<and> round_half_even x \<le> \<lfloor>x\<rfloor> + 1"
  by (simp add: round_half_even_def Let_def)

lemma rhe_mono:
  assumes "x \<le> y"
  shows "round_half_even x \<le> round_half_even y"
proof (cases "\<lfloor>x\<rfloor> = \<lfloor>y\<rfloor>")
  case True
  then show ?thesis using assms by (auto simp: round_half_even_def Let_def)
next
  case False
  then have "\<lfloor>x\<rfloor> < \<lfloor>y\<rfloor>" using floor_mono [OF assms] by simp
  then show ?thesis using rhe_floor [of x] rhe_floor [of y] by linarith
qed

lemma binade:
  assumes "0 < x"
  shows "2 powi \<lfloor>log 2 x\<rfloor> \<le> x" and "x < 2 powi (\<lfloor>log 2 x\<rfloor> + 1)"
proof -
  have "2 powr real_of_int \<lfloor>log 2 x\<rfloor> \<le> x \<and> x < 2 powr (real_of_int \<lfloor>log 2 x\<rfloor> + 1)"
    using floor_log_eq_powr_iff [of x 2 "\<lfloor>log 2 x\<rfloor>"] assms by simp
  moreover have "real_of_int \<lfloor>log 2 x\<rfloor> + 1 = real_of_int (\<lfloor>log 2 x\<rfloor> + 1)" by simp
  ultimately show "2 powi \<lfloor>log 2 x\<rfloor> \<le> x" "x < 2 powi (\<lfloor>log 2 x\<rfloor> + 1)"
    by (simp_all only: powr_real_of_int' [of 2, simplified])
qed

lemma binade_unique:
  assumes "0 < x" "2 powi e \<le> x" "x < 2 powi (e + 1)"
  shows "\<lfloor>log 2 x\<rfloor> = e"
proof -
  have "2 powr real_of_int e \<le> x \<and> x < 2 powr (real_of_int e + 1)"
    using assms(2,3) powr_real_of_int' [of 2 e] powr_real_of_int' [of 2 "e + 1"] by simp
  then show ?thesis using floor_log_eq_powr_iff [of x 2 e] assms(1) by simp
qed

lemma fl_eq:
  assumes "0 < x" "2 powi e \<le> x" "x < 2 powi (e + 1)"
  shows "fl p x = of_int (round_half_even (x / 2 powi (e - (int p - 1)))) * 2 powi (e - (int p - 1))"
  using assms binade_unique [OF assms] by (simp add: fl_unfold)

lemma fl_exact:
  assumes "0 < x" "2 powi e \<le> x" "x < 2 powi (e + 1)" "x / 2 powi (e - (int p - 1)) = of_int n"
  shows "fl p x = x"
proof -
  have "fl p x = of_int n * 2 powi (e - (int p - 1))"
    by (simp add: fl_eq [OF assms(1-3)] assms(4))
  also have "\<dots> = x" using assms(4) by (simp add: field_simps)
  finally show ?thesis .
qed

lemma fl_bounds:
  assumes "0 < x" "1 \<le> p"
  shows "2 powi \<lfloor>log 2 x\<rfloor> \<le> fl p x" and "fl p x \<le> 2 powi (\<lfloor>log 2 x\<rfloor> + 1)"
proof -
  let ?e = "\<lfloor>log 2 x\<rfloor>"
  let ?u = "2 powi (?e - (int p - 1)) :: real"
  have u: "0 < ?u" by simp
  have lo: "2 powi ?e = of_int (2 ^ (p - 1)) * ?u"
  proof -
    have "(2 :: real) powi ?e = 2 powi (int p - 1) * 2 powi (?e - (int p - 1))"
      by (simp flip: power_int_add)
    moreover have "(2 :: real) powi (int p - 1) = 2 ^ (p - 1)"
      using assms(2) by (simp add: power_int_def nat_diff_distrib' of_nat_diff)
    ultimately show ?thesis by simp
  qed
  have hi: "2 powi (?e + 1) = of_int (2 ^ p) * ?u"
  proof -
    have "?e + 1 = int p + (?e - (int p - 1))" by simp
    then have "(2 :: real) powi (?e + 1) = 2 powi (int p + (?e - (int p - 1)))" by (simp only:)
    also have "\<dots> = 2 powi (int p) * 2 powi (?e - (int p - 1))"
      by (rule power_int_add) simp
    finally show ?thesis by simp
  qed
  have f: "fl p x = of_int (round_half_even (x / ?u)) * ?u"
    using assms(1) by (simp add: fl_unfold)
  have "of_int (2 ^ (p - 1)) \<le> x / ?u"
    using binade(1) [OF assms(1)] u unfolding lo by (simp add: field_simps)
  then have "round_half_even (of_int (2 ^ (p - 1))) \<le> round_half_even (x / ?u)"
    by (rule rhe_mono)
  then have "(2 ^ (p - 1) :: int) \<le> round_half_even (x / ?u)" by (simp only: rhe_int)
  then have "real_of_int (2 ^ (p - 1)) \<le> of_int (round_half_even (x / ?u))" by (simp only: of_int_le_iff)
  then show "2 powi ?e \<le> fl p x" unfolding lo f using u by (simp only: mult_le_cancel_right_pos)
  have "x / ?u \<le> of_int (2 ^ p)"
    using binade(2) [OF assms(1)] u unfolding hi by (simp add: field_simps)
  then have "round_half_even (x / ?u) \<le> round_half_even (of_int (2 ^ p))"
    by (rule rhe_mono)
  then have "round_half_even (x / ?u) \<le> (2 ^ p :: int)" by (simp only: rhe_int)
  then have "real_of_int (round_half_even (x / ?u)) \<le> of_int (2 ^ p)" by (simp only: of_int_le_iff)
  then show "fl p x \<le> 2 powi (?e + 1)" unfolding hi f using u by (simp only: mult_le_cancel_right_pos)
qed

lemma fl_pos:
  assumes "0 < x" "1 \<le> p"
  shows "0 < fl p x"
proof -
  have "(0 :: real) < 2 powi \<lfloor>log 2 x\<rfloor>" by simp
  also have "\<dots> \<le> fl p x" by (rule fl_bounds(1) [OF assms])
  finally show ?thesis .
qed

lemma fl_mono_pos:
  assumes "0 < x" "x \<le> y" "1 \<le> p"
  shows "fl p x \<le> fl p y"
proof -
  have y: "0 < y" using assms by simp
  have le: "\<lfloor>log 2 x\<rfloor> \<le> \<lfloor>log 2 y\<rfloor>"
    using assms by (intro floor_mono) simp
  show ?thesis
  proof (cases "\<lfloor>log 2 x\<rfloor> = \<lfloor>log 2 y\<rfloor>")
    case True
    let ?u = "2 powi (\<lfloor>log 2 y\<rfloor> - (int p - 1)) :: real"
    have u: "0 < ?u" by simp
    have "x / ?u \<le> y / ?u" using assms(2) u by (simp add: divide_right_mono)
    then have "round_half_even (x / ?u) \<le> round_half_even (y / ?u)" by (rule rhe_mono)
    then have "real_of_int (round_half_even (x / ?u)) * ?u \<le> of_int (round_half_even (y / ?u)) * ?u"
      using u by (simp only: mult_le_cancel_right_pos of_int_le_iff)
    then show ?thesis using assms(1) y True by (simp add: fl_unfold)
  next
    case False
    then have "\<lfloor>log 2 x\<rfloor> + 1 \<le> \<lfloor>log 2 y\<rfloor>" using le by simp
    then have "(2 :: real) powi (\<lfloor>log 2 x\<rfloor> + 1) \<le> 2 powi \<lfloor>log 2 y\<rfloor>"
      by (intro power_int_increasing) simp_all
    with fl_bounds(2) [OF assms(1,3)] fl_bounds(1) [OF y assms(3)] show ?thesis by linarith
  qed
qed

lemma fl_zero [simp]: "fl p 0 = 0"
  by (simp add: fl_def)

lemma fl_mono_nonneg:
  assumes "0 \<le> x" "x \<le> y" "1 \<le> p"
  shows "fl p x \<le> fl p y"
proof (cases "x = 0")
  case True
  show ?thesis
  proof (cases "y = 0")
    case True
    with \<open>x = 0\<close> show ?thesis by simp
  next
    case False
    then have "0 < fl p y" using assms by (intro fl_pos) simp_all
    with True show ?thesis by simp
  qed
next
  case False
  then show ?thesis using assms by (intro fl_mono_pos) simp_all
qed

lemma fl_nonneg: "0 \<le> x \<Longrightarrow> 1 \<le> p \<Longrightarrow> 0 \<le> fl p x"
  using fl_mono_nonneg [of 0 x p] by simp

lemma fl_53_1: "fl 53 1 = 1"
  by (rule fl_exact [where e = 0 and n = "2 ^ 52"]) simp_all

lemma fl_53_255: "fl 53 255 = 255"
  by (rule fl_exact [where e = 7 and n = "255 * 2 ^ 45"]) simp_all

lemma rhe_near:
  assumes "\<bar>x - of_int n\<bar> < 1 / 2"
  shows "round_half_even x = n"
proof (cases "of_int n \<le> x")
  case True
  then have "\<lfloor>x\<rfloor> = n" using assms by (intro floor_unique) auto
  then show ?thesis using assms True by (simp add: round_half_even_def Let_def)
next
  case False
  then have "\<lfloor>x\<rfloor> = n - 1" using assms by (intro floor_unique) auto
  then show ?thesis using assms False by (simp add: round_half_even_def Let_def)
qed

lemma fl_near:
  assumes "0 < x" "2 powi e \<le> x" "x < 2 powi (e + 1)"
    and "\<bar>x / 2 powi (e - (int p - 1)) - of_int n\<bar> < 1 / 2"
  shows "fl p x = of_int n * 2 powi (e - (int p - 1))"
  by (simp add: fl_eq [OF assms(1-3)] rhe_near [OF assms(4)])

section \<open>Normalisation and the 8-bit stores\<close>

lemma x_lt_not_NaN: "x_lt a b \<Longrightarrow> a \<noteq> XNaN \<and> b \<noteq> XNaN"
  by (cases a; cases b) simp_all

lemma x_lt_trans: "x_lt a b \<Longrightarrow> x_lt b c \<Longrightarrow> x_lt a c"
  by (cases a; cases b; cases c) simp_all

lemma x_lt_le_trans:
  "x_lt a b \<Longrightarrow> \<not> x_lt c b \<Longrightarrow> c \<noteq> XNaN \<Longrightarrow> x_lt a c"
  by (cases a; cases b; cases c) simp_all

lemma x_le_lt_trans:
  "\<not> x_lt b a \<Longrightarrow> x_lt b c \<Longrightarrow> a \<noteq> XNaN \<Longrightarrow> x_lt a c"
  by (cases a; cases b; cases c) simp_all

text \<open>
  After the first loop \<open>min\<close> and \<open>max\<close> are not NaN, \<open>min\<close> is not above and \<open>max\<close> not
  below any element.
\<close>

lemma minmax_inv:
  assumes "fst st \<noteq> XNaN" "snd st \<noteq> XNaN"
  shows "fst (fold minmax_step data st) \<noteq> XNaN \<and> snd (fold minmax_step data st) \<noteq> XNaN
       \<and> \<not> x_lt (fst st) (fst (fold minmax_step data st))
       \<and> \<not> x_lt (snd (fold minmax_step data st)) (snd st)
       \<and> (\<forall>v \<in> set data. \<not> x_lt v (fst (fold minmax_step data st))
                          \<and> \<not> x_lt (snd (fold minmax_step data st)) v)"
  using assms
proof (induction data arbitrary: st)
  case Nil
  then show ?case by (cases "fst st"; cases "snd st") simp_all
next
  case (Cons v data)
  let ?s = "minmax_step v st"
  let ?r = "fold minmax_step data ?s"
  have s1: "fst ?s \<noteq> XNaN" "snd ?s \<noteq> XNaN"
    using Cons.prems x_lt_not_NaN [of v "fst st"] x_lt_not_NaN [of "snd st" v]
    by (auto simp: minmax_step_def)
  note ih = Cons.IH [OF s1]
  have a: "\<not> x_lt (fst st) (fst ?r)"
  proof
    assume h: "x_lt (fst st) (fst ?r)"
    have "x_lt (fst ?s) (fst ?r)"
    proof (cases "x_lt v (fst st)")
      case True
      then show ?thesis using h by (auto simp: minmax_step_def intro: x_lt_trans)
    next
      case False
      then show ?thesis using h by (simp add: minmax_step_def)
    qed
    with ih show False by simp
  qed
  have b: "\<not> x_lt (snd ?r) (snd st)"
  proof
    assume h: "x_lt (snd ?r) (snd st)"
    have "x_lt (snd ?r) (snd ?s)"
    proof (cases "x_lt (snd st) v")
      case True
      then show ?thesis using h by (auto simp: minmax_step_def intro: x_lt_trans)
    next
      case False
      then show ?thesis using h by (simp add: minmax_step_def)
    qed
    with ih show False by simp
  qed
  have c: "\<not> x_lt v (fst ?r)"
  proof
    assume h: "x_lt v (fst ?r)"
    show False
    proof (cases "x_lt v (fst st)")
      case True
      then have "fst ?s = v" by (simp add: minmax_step_def)
      with ih h show False by simp
    next
      case False
      have "x_lt v (fst st)"
        by (rule x_lt_le_trans [OF h a Cons.prems(1)])
      with False show False by simp
    qed
  qed
  have d: "\<not> x_lt (snd ?r) v"
  proof
    assume h: "x_lt (snd ?r) v"
    show False
    proof (cases "x_lt (snd st) v")
      case True
      then have "snd ?s = v" by (simp add: minmax_step_def)
      with ih h show False by simp
    next
      case False
      have "x_lt (snd st) v"
        by (rule x_le_lt_trans [OF b h Cons.prems(2)])
      with False show False by simp
    qed
  qed
  from ih a b c d show ?case by simp
qed

lemma round_byte:
  fixes v :: real
  assumes "0 \<le> v" "v \<le> 255"
  shows "0 \<le> round v" "round v \<le> 255"
proof -
  have "round (0 :: real) \<le> round v" using assms(1) by (rule round_mono)
  then show "0 \<le> round v" by simp
  have "round v \<le> round (255 :: real)" using assms(2) by (rule round_mono)
  then show "round v \<le> 255" by simp
qed

lemma uint_byte: "0 \<le> n \<Longrightarrow> n \<le> 255 \<Longrightarrow> uint (word_of_int n :: u8) = n"
  by (simp add: uint_word_of_int)

text \<open>
  The scaled quotient of the normaliser, every operation rounded, lies between 0 and
  255 when the element lies between the minimum and the maximum.
\<close>

lemma norm_scaled_range:
  assumes "a \<le> x" "x \<le> b"
  defines "r \<equiv> (if fl 53 (b - a) = 0 then 1 else fl 53 (b - a))"
  shows "0 \<le> fl 53 (fl 53 (fl 53 (x - a) / r) * 255)"
    and "fl 53 (fl 53 (fl 53 (x - a) / r) * 255) \<le> 255"
proof -
  let ?n = "fl 53 (x - a)" and ?d = "fl 53 (b - a)"
  have n: "0 \<le> ?n" using assms(1) by (intro fl_nonneg) simp_all
  have nd: "?n \<le> ?d" using assms(1,2) by (intro fl_mono_nonneg) simp_all
  have r: "0 < r" using n nd by (simp add: r_def)
  have q: "0 \<le> ?n / r" "?n / r \<le> 1" using n nd r by (auto simp: r_def)
  have q0: "0 \<le> fl 53 (?n / r)" using q(1) by (intro fl_nonneg) simp_all
  have "fl 53 (?n / r) \<le> fl 53 1" using q by (intro fl_mono_nonneg) simp_all
  then have q1: "fl 53 (?n / r) \<le> 1" by (simp only: fl_53_1)
  show "0 \<le> fl 53 (fl 53 (?n / r) * 255)" using q0 by (intro fl_nonneg) simp_all
  have "fl 53 (fl 53 (?n / r) * 255) \<le> fl 53 255"
    using q0 q1 by (intro fl_mono_nonneg) simp_all
  then show "fl 53 (fl 53 (?n / r) * 255) \<le> 255" by (simp only: fl_53_255)
qed

lemma norm_range_Fin:
  "norm_range (Fin a) (Fin b) = Fin (if fl 53 (b - a) = 0 then 1 else fl 53 (b - a))"
  by (simp add: norm_range_def Let_def)

lemma norm_round_Fin:
  "r \<noteq> 0 \<Longrightarrow> norm_round (Fin x) (Fin a) (Fin r)
     = Fin (round (fl 53 (fl 53 (fl 53 (x - a) / r) * 255)))"
  by (simp add: norm_round_def)

lemma norm_round_finite_range:
  assumes "a \<le> x" "x \<le> b"
  shows "\<exists>n. norm_round (Fin x) (Fin a) (norm_range (Fin a) (Fin b)) = Fin n \<and> 0 \<le> n \<and> n \<le> 255"
proof -
  let ?r = "if fl 53 (b - a) = 0 then 1 else fl 53 (b - a)"
  have "?r \<noteq> 0" by simp
  then have "norm_round (Fin x) (Fin a) (norm_range (Fin a) (Fin b))
      = Fin (round (fl 53 (fl 53 (fl 53 (x - a) / ?r) * 255)))"
    unfolding norm_range_Fin by (rule norm_round_Fin)
  moreover have "0 \<le> round (fl 53 (fl 53 (fl 53 (x - a) / ?r) * 255))"
    "round (fl 53 (fl 53 (fl 53 (x - a) / ?r) * 255)) \<le> 255"
    using norm_scaled_range [OF assms] by (auto intro: round_byte)
  ultimately show ?thesis by blast
qed

lemma norm_round_cases:
  assumes "mn \<noteq> XNaN" "mx \<noteq> XNaN" "\<not> x_lt v mn" "\<not> x_lt mx v"
  shows "norm_round v mn (norm_range mn mx) = XNaN
       \<or> (\<exists>n. norm_round v mn (norm_range mn mx) = Fin n \<and> 0 \<le> n \<and> n \<le> 255)"
proof (cases "\<exists>x a b. v = Fin x \<and> mn = Fin a \<and> mx = Fin b")
  case True
  then obtain x a b where e: "v = Fin x" "mn = Fin a" "mx = Fin b" by blast
  with assms(3,4) have "a \<le> x" "x \<le> b" by simp_all
  from norm_round_finite_range [OF this] show ?thesis by (simp add: e)
next
  case False
  then show ?thesis
    using assms
    by (cases v; cases mn; cases mx) (simp_all add: norm_round_def norm_range_def Let_def)
qed

lemma normalize_rounded_cases:
  assumes "v \<in> set (normalize_rounded data)"
  shows "v = XNaN \<or> (\<exists>n. v = Fin n \<and> 0 \<le> n \<and> n \<le> 255)"
proof -
  let ?st = "fold minmax_step data (PosInf, NegInf)"
  from assms obtain e where e: "e \<in> set data"
    "v = norm_round e (fst ?st) (norm_range (fst ?st) (snd ?st))"
    by (auto simp: normalize_rounded_def Let_def)
  have i: "fst ?st \<noteq> XNaN" "snd ?st \<noteq> XNaN" "\<not> x_lt e (fst ?st)" "\<not> x_lt (snd ?st) e"
    using minmax_inv [of "(PosInf, NegInf)" data] e(1) by simp_all
  from norm_round_cases [OF i] show ?thesis unfolding e(2) .
qed

lemma rhe_tie:
  assumes "x = of_int f + 1 / 2"
  shows "round_half_even x = (if even f then f else f + 1)"
proof -
  have "\<lfloor>x\<rfloor> = f" unfolding assms by (intro floor_unique) simp_all
  then show ?thesis by (simp add: round_half_even_def Let_def assms)
qed

lemma fl_tie:
  assumes "0 < x" "2 powi e \<le> x" "x < 2 powi (e + 1)"
    and "x / 2 powi (e - (int p - 1)) = of_int f + 1 / 2"
  shows "fl p x = of_int (if even f then f else f + 1) * 2 powi (e - (int p - 1))"
  by (simp only: fl_eq [OF assms(1-3)] rhe_tie [OF assms(4)])

text \<open>The three weights as doubles, and the luminosity of white, step by step.\<close>

lemma fl_weight_r: "fl 53 0.299 = 5386305154335113 / 2 ^ 54"
  using fl_near [where x = "0.299" and e = "- 2" and p = 53 and n = 5386305154335113]
  by (simp add: power_int_minus)

lemma fl_weight_g: "fl 53 0.587 = 2643612981266481 / 2 ^ 52"
  using fl_near [where x = "0.587" and e = "- 1" and p = 53 and n = 5287225962532962]
  by (simp add: power_int_minus)

lemma fl_weight_b: "fl 53 0.114 = 8214565720323785 / 2 ^ 56"
  using fl_near [where x = "0.114" and e = "- 4" and p = 53 and n = 8214565720323785]
  by (simp add: power_int_minus)

lemma weighted_r_255: "weighted 0.299 255 = 5365264899825991 / 2 ^ 46"
  unfolding weighted_def fl_weight_r
  using fl_near [where x = "5386305154335113 / 2 ^ 54 * real_of_int 255" and e = 6 and p = 53
      and n = 5365264899825991]
  by (simp add: power_int_minus)

lemma weighted_g_255: "weighted 0.587 255 = 2633286368058409 / 2 ^ 44"
  unfolding weighted_def fl_weight_g
  using fl_near [where x = "2643612981266481 / 2 ^ 52 * real_of_int 255" and e = 7 and p = 53
      and n = 5266572736116818]
  by (simp add: power_int_minus)

lemma weighted_b_255: "weighted 0.114 255 = 4091238786489385 / 2 ^ 47"
  unfolding weighted_def fl_weight_b
  using fl_near [where x = "8214565720323785 / 2 ^ 56 * real_of_int 255" and e = 4 and p = 53
      and n = 8182477572978770]
  by (simp add: power_int_minus)

lemma white_sum_rg:
  "fl 53 (5365264899825991 / 2 ^ 46 + 2633286368058409 / 2 ^ 44) = 3974602593014907 / 2 ^ 44"
  using fl_tie [where x = "5365264899825991 / 2 ^ 46 + 2633286368058409 / 2 ^ 44" and e = 7
      and p = 53 and f = 7949205186029813]
  by (simp add: power_int_minus)

lemma white_sum_rgb:
  "fl 53 (3974602593014907 / 2 ^ 44 + 4091238786489385 / 2 ^ 47) = 255"
  using fl_near [where x = "3974602593014907 / 2 ^ 44 + 4091238786489385 / 2 ^ 47" and e = 7
      and p = 53 and n = "255 * 2 ^ 45"]
  by (simp add: power_int_minus)

lemma weighted_nonneg: "0 \<le> c \<Longrightarrow> 0 \<le> v \<Longrightarrow> 0 \<le> weighted c v"
  unfolding weighted_def by (intro fl_nonneg mult_nonneg_nonneg) simp_all

lemma weighted_mono:
  assumes "0 \<le> c" "0 \<le> v" "v \<le> w"
  shows "weighted c v \<le> weighted c w"
proof -
  have c: "0 \<le> fl 53 c" using assms(1) by (rule fl_nonneg) simp
  have "fl 53 c * real_of_int v \<le> fl 53 c * real_of_int w"
    using assms(3) c by (intro mult_left_mono) simp_all
  moreover have "0 \<le> fl 53 c * real_of_int v" using c assms(2) by simp
  ultimately show ?thesis unfolding weighted_def by (intro fl_mono_nonneg) simp_all
qed

lemma luminosity_sum_range:
  fixes r g b :: int
  assumes "0 \<le> r" "r \<le> 255" "0 \<le> g" "g \<le> 255" "0 \<le> b" "b \<le> 255"
  shows "0 \<le> fl 53 (fl 53 (weighted 0.299 r + weighted 0.587 g) + weighted 0.114 b)"
    and "fl 53 (fl 53 (weighted 0.299 r + weighted 0.587 g) + weighted 0.114 b) \<le> 255"
proof -
  let ?R = "weighted 0.299 r" and ?G = "weighted 0.587 g" and ?B = "weighted 0.114 b"
  have n: "0 \<le> ?R" "0 \<le> ?G" "0 \<le> ?B"
    using assms by (auto intro: weighted_nonneg)
  have m: "?R \<le> 5365264899825991 / 2 ^ 46" "?G \<le> 2633286368058409 / 2 ^ 44"
    "?B \<le> 4091238786489385 / 2 ^ 47"
    using weighted_mono [of "0.299" r 255] weighted_mono [of "0.587" g 255]
      weighted_mono [of "0.114" b 255] assms
    by (simp_all only: weighted_r_255 weighted_g_255 weighted_b_255) simp_all
  have s0: "0 \<le> fl 53 (?R + ?G)" using n by (intro fl_nonneg) simp_all
  have "fl 53 (?R + ?G) \<le> fl 53 (5365264899825991 / 2 ^ 46 + 2633286368058409 / 2 ^ 44)"
    using n m by (intro fl_mono_nonneg add_mono) simp_all
  then have s1: "fl 53 (?R + ?G) \<le> 3974602593014907 / 2 ^ 44" by (simp only: white_sum_rg)
  show "0 \<le> fl 53 (fl 53 (?R + ?G) + ?B)" using s0 n by (intro fl_nonneg) simp_all
  have "fl 53 (fl 53 (?R + ?G) + ?B)
      \<le> fl 53 (3974602593014907 / 2 ^ 44 + 4091238786489385 / 2 ^ 47)"
    using s0 s1 n m by (intro fl_mono_nonneg add_mono) simp_all
  then show "fl 53 (fl 53 (?R + ?G) + ?B) \<le> 255" by (simp only: white_sum_rgb)
qed

lemma luminosity_range:
  assumes "luminosity r g b = Num n"
  shows "0 \<le> n \<and> n \<le> 255"
proof -
  from assms obtain r' g' b' where s: "r = Some r'" "g = Some g'" "b = Some b'"
    by (cases r; cases g; cases b) auto
  have b: "0 \<le> uint r'" "uint r' \<le> 255" "0 \<le> uint g'" "uint g' \<le> 255" "0 \<le> uint b'" "uint b' \<le> 255"
    using uint_lt2p [of r'] uint_lt2p [of g'] uint_lt2p [of b'] by simp_all
  have "n = round (fl 53 (fl 53 (weighted 0.299 (uint r') + weighted 0.587 (uint g'))
                          + weighted 0.114 (uint b')))"
    using assms unfolding s luminosity.simps by blast
  with luminosity_sum_range [OF b] show ?thesis by (auto intro: round_byte)
qed

lemma luminosity_white: "luminosity (Some 255) (Some 255) (Some 255) = Num 255"
proof -
  have "uint (255 :: u8) = 255" by simp
  then show ?thesis
    by (simp only: luminosity.simps weighted_r_255 weighted_g_255 weighted_b_255
        white_sum_rg white_sum_rgb) simp
qed

text \<open>
  The rounding of the sums is visible in the result: for the colour (0, 36, 12) the exact
  sum is 22.5, the sum of the doubles lies just below it, and the luminosity is 22.
\<close>

lemma weighted_g_36: "weighted 0.587 36 = 2974064603924791 / 2 ^ 47"
  unfolding weighted_def fl_weight_g
  using fl_near [where x = "2643612981266481 / 2 ^ 52 * real_of_int 36" and e = 4 and p = 53
      and n = 5948129207849582]
  by (simp add: power_int_minus)

lemma weighted_b_12: "weighted 0.114 12 = 6160924290242839 / 2 ^ 52"
  unfolding weighted_def fl_weight_b
  using fl_near [where x = "8214565720323785 / 2 ^ 56 * real_of_int 12" and e = 0 and p = 53
      and n = 6160924290242839]
  by (simp add: power_int_minus)

lemma dark_sum_rg: "fl 53 (0 + 2974064603924791 / 2 ^ 47) = 2974064603924791 / 2 ^ 47"
  using fl_near [where x = "0 + 2974064603924791 / 2 ^ 47" and e = 4 and p = 53
      and n = 5948129207849582]
  by (simp add: power_int_minus)

lemma dark_sum_rgb:
  "fl 53 (2974064603924791 / 2 ^ 47 + 6160924290242839 / 2 ^ 52) = 6333186975989759 / 2 ^ 48"
  using fl_near [where x = "2974064603924791 / 2 ^ 47 + 6160924290242839 / 2 ^ 52" and e = 4
      and p = 53 and n = 6333186975989759]
  by (simp add: power_int_minus)

lemma luminosity_rounded_sum:
  "luminosity (Some 0) (Some 36) (Some 12) = Num 22
   \<and> round (0.299 * 0 + 0.587 * 36 + 0.114 * 12 :: real) = 23"
proof -
  have u: "uint (0 :: u8) = 0" "uint (36 :: u8) = 36" "uint (12 :: u8) = 12" by simp_all
  have z: "weighted 0.299 0 = 0" by (simp add: weighted_def fl_zero)
  have r: "round (6333186975989759 / 2 ^ 48 :: real) = 22" by (simp add: round_def)
  have "luminosity (Some 0) (Some 36) (Some 12) = Num 22"
    by (simp only: luminosity.simps u z weighted_g_36 weighted_b_12 dark_sum_rg dark_sum_rgb r)
  moreover have "round (0.299 * 0 + 0.587 * 36 + 0.114 * 12 :: real) = 23"
    by (simp add: round_def)
  ultimately show ?thesis by blast
qed

lemma toGrayscale_rounded_range:
  assumes "Num n \<in> set (toGrayscale_rounded img)"
  shows "0 \<le> n \<and> n \<le> 255"
  using assms by (auto simp: toGrayscale_rounded_def Let_def dest: luminosity_range [OF sym])

lemma normalize_rounded_range:
  assumes "v \<in> set (normalize_rounded data)"
  shows "v \<noteq> PosInf" "v \<noteq> NegInf" "v = Fin n \<Longrightarrow> 0 \<le> n \<and> n \<le> 255"
  using normalize_rounded_cases [OF assms] by auto

text \<open>
  Claim C9. Every value that an output stage rounds and stores into an 8-bit array, the
  intensity of the greyscale converter and the scaled value of the normaliser, lies in
  \<open>0..255\<close>, so the store keeps it as it is: nothing wraps around. The normaliser never
  rounds to an infinite value either; where its value is NaN, 0 is stored. (The bound
  follows from the arithmetic; the source has no clamp.)
\<close>

theorem output_stages_in_byte_range:
  "(\<forall>v \<in> set (toGrayscale_rounded img). \<forall>n. v = Num n \<longrightarrow> 0 \<le> n \<and> n \<le> 255 \<and> uint (toUint8 v) = n)
   \<and> (\<forall>v \<in> set (normalize_rounded data).
         v \<noteq> PosInf \<and> v \<noteq> NegInf
       \<and> (\<forall>n. v = Fin n \<longrightarrow> 0 \<le> n \<and> n \<le> 255 \<and> uint (toUint8x v) = n))"
proof -
  have "0 \<le> n \<and> n \<le> 255 \<and> uint (toUint8 (Num n)) = n"
    if "Num n \<in> set (toGrayscale_rounded img)" for n
    using toGrayscale_rounded_range [OF that] by (simp add: toUint8_def uint_byte)
  moreover have "0 \<le> n \<and> n \<le> 255 \<and> uint (toUint8x (Fin n)) = n"
    if "Fin n \<in> set (normalize_rounded data)" for n
    using normalize_rounded_range(3) [OF that refl] by (simp add: toUint8x_def uint_byte)
  moreover have "v \<noteq> PosInf \<and> v \<noteq> NegInf" if "v \<in> set (normalize_rounded data)" for v
    using normalize_rounded_range(1,2) [OF that] by simp
  ultimately show ?thesis by blast
qed

lemma normalize_rounded_example:
  "normalize_rounded [Fin 2, Fin 5, XNaN, PosInf] = [Fin 0, Fin 0, XNaN, XNaN]"
  by (simp add: normalize_rounded_def minmax_step_def norm_range_def norm_round_def)

lemma normalize_rounded_example2:
  "normalize_rounded [Fin 2, Fin 3, XNaN] = [Fin 0, Fin 255, XNaN]"
  by (simp add: normalize_rounded_def minmax_step_def norm_range_def norm_round_def
      fl_53_1 fl_53_255)

theorem output_stages_in_byte_range_witness:
  "Num 255 \<in> set (toGrayscale_rounded \<lparr>im_width = 1, im_height = 1, im_data = [255, 255, 255, 255]\<rparr>)
   \<and> Fin 255 \<in> set (normalize_rounded [Fin 2, Fin 3, XNaN])
   \<and> uint (toUint8 (Num 255)) = 255 \<and> uint (toUint8x (Fin 255)) = 255"
proof -
  have a: "Num 255 \<in> set (toGrayscale_rounded \<lparr>im_width = 1, im_height = 1, im_data = [255, 255, 255, 255]\<rparr>)"
    by (simp add: toGrayscale_rounded_def rd_def luminosity_white del: luminosity.simps)
  have b: "Fin 255 \<in> set (normalize_rounded [Fin 2, Fin 3, XNaN])"
    by (simp add: normalize_rounded_example2)
  from output_stages_in_byte_range
    [of "\<lparr>im_width = 1, im_height = 1, im_data = [255, 255, 255, 255]\<rparr>" "[Fin 2, Fin 3, XNaN]"] a b
  show ?thesis by blast
qed

lemma is_constant_iff:
  assumes "xs \<noteq> []"
  shows "is_constant xs \<longleftrightarrow> Max (set xs) = Min (set xs)"
proof
  assume "is_constant xs"
  moreover have "Max (set xs) \<in> set xs" "Min (set xs) \<in> set xs"
    using assms by (simp_all add: Max_in Min_in)
  ultimately show "Max (set xs) = Min (set xs)" by (simp add: is_constant_def)
next
  assume e: "Max (set xs) = Min (set xs)"
  have "v = Min (set xs)" if "v \<in> set xs" for v
  proof -
    have "Min (set xs) \<le> v" "v \<le> Max (set xs)" using that by simp_all
    with e show ?thesis by simp
  qed
  then show "is_constant xs" unfolding is_constant_def by metis
qed


lemma minmax_step_Fin:
  "minmax_step (Fin r) (Fin a, Fin b) = (Fin (min r a), Fin (max r b))"
  by (auto simp: minmax_step_def min_def max_def)

lemma minmax_step_first: "minmax_step (Fin r) (PosInf, NegInf) = (Fin r, Fin r)"
  by (simp add: minmax_step_def)

lemma fold_minmax_Fin:
  "fold minmax_step (map Fin xs) (Fin a, Fin b) = (Fin (fold min xs a), Fin (fold max xs b))"
  by (induction xs arbitrary: a b) (simp_all add: minmax_step_Fin)

lemma fold_minmax_finite:
  assumes "xs \<noteq> []"
  shows "fold minmax_step (map Fin xs) (PosInf, NegInf) = (Fin (Min (set xs)), Fin (Max (set xs)))"
proof -
  obtain x ys where xs: "xs = x # ys" using assms by (cases xs) auto
  have "fold min ys x = Min (set (x # ys))" "fold max ys x = Max (set (x # ys))"
    by (simp_all only: Min.set_eq_fold Max.set_eq_fold)
  then show ?thesis
    unfolding xs by (simp add: minmax_step_first fold_minmax_Fin)
qed

lemma normalizeArray_nth:
  assumes "i < length xs"
  shows "normalizeArray (map Fin xs) ! i
       = toUint8x (norm_round (Fin (xs ! i)) (Fin (Min (set xs)))
                     (norm_range (Fin (Min (set xs))) (Fin (Max (set xs)))))"
proof -
  have "xs \<noteq> []" using assms by auto
  then show ?thesis
    using assms by (simp add: normalizeArray_def normalize_rounded_def Let_def fold_minmax_finite)
qed

text \<open>
  Claim C4, as amended. For a field of finite numbers that is not constant, the
  normaliser maps every element at the global minimum to 0 and every element at the
  global maximum to 255, and every element \<open>v\<close> to the rounding of
  \<open>(v - min) / (max - min) * 255\<close> as doubles evaluate it, each operation rounded, which
  lies in \<open>0..255\<close>; for a constant field every output is 0.
  The rounding of the exact quotient can differ by one, and a field with an infinite
  maximum is mapped to zeros: see the counterexample.
\<close>

theorem normalizeArray_spec:
  assumes "i < length xs"
  shows "length (normalizeArray (map Fin xs)) = length xs
       \<and> (if is_constant xs then normalizeArray (map Fin xs) ! i = 0
          else uint (normalizeArray (map Fin xs) ! i)
                 = round (fl 53 (fl 53 (fl 53 (xs ! i - Min (set xs))
                                        / fl 53 (Max (set xs) - Min (set xs))) * 255))
             \<and> uint (normalizeArray (map Fin xs) ! i) \<le> 255
             \<and> (xs ! i = Min (set xs) \<longrightarrow> normalizeArray (map Fin xs) ! i = 0)
             \<and> (xs ! i = Max (set xs) \<longrightarrow> normalizeArray (map Fin xs) ! i = 255))"
proof -
  let ?mn = "Min (set xs)" and ?mx = "Max (set xs)" and ?v = "xs ! i"
  have ne: "xs \<noteq> []" using assms by auto
  have v: "?mn \<le> ?v" "?v \<le> ?mx" using assms by simp_all
  have len: "length (normalizeArray (map Fin xs)) = length xs"
    by (simp add: normalizeArray_def normalize_rounded_def Let_def)
  show ?thesis
  proof (cases "is_constant xs")
    case True
    then have e: "?mx = ?mn" using is_constant_iff [OF ne] by simp
    with v have "?v = ?mn" by simp
    with e have "norm_round (Fin ?v) (Fin ?mn) (norm_range (Fin ?mn) (Fin ?mx)) = Fin 0"
      by (simp add: norm_range_Fin norm_round_Fin)
    with True len show ?thesis by (simp add: normalizeArray_nth [OF assms] toUint8x_def)
  next
    case False
    then have "?mn \<noteq> ?mx" using is_constant_iff [OF ne] by auto
    with v have "0 < ?mx - ?mn" by simp
    then have d: "0 < fl 53 (?mx - ?mn)" by (intro fl_pos) simp_all
    let ?r = "round (fl 53 (fl 53 (fl 53 (?v - ?mn) / fl 53 (?mx - ?mn)) * 255))"
    have nr: "norm_round (Fin ?v) (Fin ?mn) (norm_range (Fin ?mn) (Fin ?mx)) = Fin ?r"
      using d by (simp add: norm_range_Fin norm_round_Fin)
    have n: "normalizeArray (map Fin xs) ! i = word_of_int ?r"
      by (simp add: normalizeArray_nth [OF assms] nr toUint8x_def)
    from norm_round_finite_range [OF v] have b: "0 \<le> ?r" "?r \<le> 255"
      unfolding nr by simp_all
    then have "uint (word_of_int ?r :: u8) = ?r" by (rule uint_byte)
    then have u: "uint (normalizeArray (map Fin xs) ! i) = ?r" by (simp only: n)
    have lo: "normalizeArray (map Fin xs) ! i = 0" if "?v = ?mn"
    proof -
      have "?r = 0" using that by simp
      then show ?thesis by (simp only: n) simp
    qed
    have hi: "normalizeArray (map Fin xs) ! i = 255" if "?v = ?mx"
    proof -
      have "fl 53 (?v - ?mn) / fl 53 (?mx - ?mn) = 1" using that d by simp
      then have "?r = round (fl 53 (fl 53 1 * 255))" by (simp only:)
      then have "?r = 255" by (simp add: fl_53_1 fl_53_255)
      then show ?thesis by (simp only: n) simp
    qed
    from False len u b lo hi show ?thesis by (simp only: if_False) blast
  qed
qed

theorem normalizeArray_spec_witness:
  "(1 :: nat) < length [2, 5, 3 :: real] \<and> \<not> is_constant [2, 5, 3]
   \<and> normalizeArray (map Fin [2, 5, 3]) ! 1 = 255
   \<and> is_constant [4, 4 :: real] \<and> normalizeArray (map Fin [4, 4]) ! 1 = 0"
  using normalizeArray_spec [of 1 "[2, 5, 3]"] normalizeArray_spec [of 1 "[4, 4]"]
  by (simp add: is_constant_def)

lemma fl_tie_1: "fl 53 (1 - 1 / 2 ^ 60) = 1"
  using fl_near [where x = "1 - 1 / 2 ^ 60" and e = "- 1" and p = 53 and n = "2 ^ 53"]
  by (simp add: power_int_minus)

lemma fl_tie_510: "fl 53 (510 - 1 / 2 ^ 60) = 510"
  using fl_near [where x = "510 - 1 / 2 ^ 60" and e = 8 and p = 53 and n = "510 * 2 ^ 44"]
  by (simp add: power_int_minus)

lemma fl_tie_quot: "fl 53 (1 / 510) = 4521260802379792 / 2 ^ 61"
  using fl_near [where x = "1 / 510" and e = "- 9" and p = 53 and n = 4521260802379792]
  by (simp add: power_int_minus)

lemma fl_tie_half: "fl 53 (4521260802379792 / 2 ^ 61 * 255) = 1 / 2"
  using fl_near [where x = "4521260802379792 / 2 ^ 61 * 255" and e = "- 2" and p = 53 and n = "2 ^ 53"]
  by (simp add: power_int_minus)

theorem normalizeArray_not_exact_counterexample:
  "normalizeArray [Fin (1 / 2 ^ 60), Fin 1, Fin 510] ! 1 = 1
   \<and> round ((1 - 1 / 2 ^ 60) / (510 - 1 / 2 ^ 60) * 255 :: real) = 0
   \<and> normalizeArray [Fin 0, PosInf] ! 1 = 0"
proof -
  have r: "norm_range (Fin (1 / 2 ^ 60)) (Fin 510) = Fin 510"
    by (simp only: norm_range_Fin fl_tie_510) simp
  have "norm_round (Fin 1) (Fin (1 / 2 ^ 60)) (Fin 510)
      = Fin (round (fl 53 (fl 53 (fl 53 (1 - 1 / 2 ^ 60) / 510) * 255)))"
    by (rule norm_round_Fin) simp
  also have "\<dots> = Fin (round (1 / 2 :: real))"
    by (simp only: fl_tie_1 fl_tie_quot fl_tie_half)
  also have "\<dots> = Fin 1" by (simp add: round_def)
  finally have "norm_round (Fin 1) (Fin (1 / 2 ^ 60)) (norm_range (Fin (1 / 2 ^ 60)) (Fin 510)) = Fin 1"
    by (simp only: r)
  then have a: "normalizeArray [Fin (1 / 2 ^ 60), Fin 1, Fin 510] ! 1 = 1"
    by (simp add: normalizeArray_def normalize_rounded_def Let_def minmax_step_def toUint8x_def)
  have b: "round ((1 - 1 / 2 ^ 60) / (510 - 1 / 2 ^ 60) * 255 :: real) = 0"
    by (rule round_unique') simp
  have c: "normalizeArray [Fin 0, PosInf] ! 1 = 0"
    by (simp add: normalizeArray_def normalize_rounded_def minmax_step_def norm_range_def
        norm_round_def toUint8x_def)
  from a b c show ?thesis by simp
qed

section \<open>Loops over the whole field\<close>

lemma cell_of_index:
  assumes "k < W * H"
  shows "k mod W < W" "k div W < H" "int (k div W) * int W + int (k mod W) = int k"
proof -
  have W: "0 < W" using assms by (cases W) auto
  then show "k mod W < W" by simp
  show "k div W < H" using assms W by (simp add: less_mult_imp_div_less mult.commute)
  have "k div W * W + k mod W = k" by simp
  then show "int (k div W) * int W + int (k mod W) = int k"
    by (metis of_nat_add of_nat_mult)
qed

lemma grid_full_nth:
  assumes "k < W * H" "length a = W * H"
  shows "fold (\<lambda>y. fold (\<lambda>x a. wr a (y * int W + x) (g x y)) [0..int W - 1]) [0..int H - 1] a ! k
       = g (int (k mod W)) (int (k div W))"
proof (rule grid_hit)
  note c = cell_of_index [OF assms(1)]
  show "\<forall>x \<in> set [0..int W - 1]. 0 \<le> x \<and> x < int W" by auto
  show "int (k div W) \<in> set [0..int H - 1]" using c(2) by auto
  show "int (k mod W) \<in> set [0..int W - 1]" using c(1) by auto
  show "int (k div W) * int W + int (k mod W) = int k" by (rule c(3))
  show "k < length a" using assms by simp
qed

lemma grid_full_const:
  assumes "length a = W * H"
    and "\<And>x y. 0 \<le> x \<Longrightarrow> x < int W \<Longrightarrow> 0 \<le> y \<Longrightarrow> y < int H \<Longrightarrow> g x y = v"
  shows "fold (\<lambda>y. fold (\<lambda>x a. wr a (y * int W + x) (g x y)) [0..int W - 1]) [0..int H - 1] a
       = replicate (W * H) v"
proof (rule nth_equalityI)
  show "length (fold (\<lambda>y. fold (\<lambda>x a. wr a (y * int W + x) (g x y)) [0..int W - 1]) [0..int H - 1] a)
      = length (replicate (W * H) v)"
    using assms(1) by simp
next
  fix k
  assume "k < length (fold (\<lambda>y. fold (\<lambda>x a. wr a (y * int W + x) (g x y)) [0..int W - 1]) [0..int H - 1] a)"
  then have k: "k < W * H" using assms(1) by simp
  note c = cell_of_index [OF k]
  have "g (int (k mod W)) (int (k div W)) = v"
    by (rule assms(2)) (use c in auto)
  with grid_full_nth [OF k assms(1)] k
  show "fold (\<lambda>y. fold (\<lambda>x a. wr a (y * int W + x) (g x y)) [0..int W - 1]) [0..int H - 1] a ! k
      = replicate (W * H) v ! k"
    by simp
qed

section \<open>Median filter\<close>

lemma clamp_range:
  fixes n v :: int
  assumes "0 < n"
  shows "0 \<le> max 0 (min (n - 1) v)" "max 0 (min (n - 1) v) < n"
  using assms by auto

lemma median_indices_in_field:
  assumes "0 < W" "0 < H" "i \<in> set (median_indices (int W) (int H) half x y)"
  shows "0 \<le> i \<and> i < int (W * H)"
proof -
  from assms(3) obtain ky kx where
    i: "i = max 0 (min (int H - 1) (y + ky)) * int W + max 0 (min (int W - 1) (x + kx))"
    by (auto simp: median_indices_def Let_def)
  show ?thesis
    unfolding i
    using cell_bound [of "max 0 (min (int H - 1) (y + ky))" H "max 0 (min (int W - 1) (x + kx))" W]
      clamp_range [of "int H" "y + ky"] clamp_range [of "int W" "x + kx"] assms(1,2)
    by simp
qed

lemma median_indices_nonempty:
  "0 \<le> half \<Longrightarrow> median_indices W H half x y \<noteq> []"
  by (simp add: median_indices_def upto_rec1 [of "- half" half])

lemma js_sort_all_same:
  "js_sort (map (\<lambda>i. Some c) is) = map (\<lambda>i. Some c) is"
proof -
  have n: "concat (map (\<lambda>v. case v of None \<Rightarrow> [] | Some r \<Rightarrow> [r]) (map (\<lambda>i. Some c) is))
         = replicate (length is) c"
    by (induction "is") simp_all
  have "sort (replicate (length is) c) = replicate (length is) c"
    by (rule sorted_sort_id) simp
  then show ?thesis
    by (simp add: js_sort_def n Let_def map_replicate_const)
qed

lemma rd_replicate: "0 \<le> i \<and> i < int n \<Longrightarrow> rd (replicate n c) i = Some c"
  by (simp add: rd_def nat_less_iff)

lemma median_at_constant:
  assumes "0 \<le> half" "0 < W" "0 < H"
  shows "median_at (replicate (W * H) c) (int W) (int H) half x y = Num c"
proof -
  let ?is = "median_indices (int W) (int H) half x y"
  have "map (rd (replicate (W * H) c)) ?is = map (\<lambda>i. Some c) ?is"
  proof (rule map_cong [OF refl])
    fix i assume "i \<in> set ?is"
    from median_indices_in_field [OF assms(2,3) this]
    show "rd (replicate (W * H) c) i = Some c" by (rule rd_replicate)
  qed
  then have k: "js_sort (map (rd (replicate (W * H) c)) ?is) = map (\<lambda>i. Some c) ?is"
    by (simp only: js_sort_all_same)
  have "0 < length ?is" using median_indices_nonempty [OF assms(1)] by simp
  then have "length ?is div 2 < length ?is" by simp
  then have "rd (map (\<lambda>i. Some c) ?is) (int (length ?is) div 2) = Some (Some c)"
    by (simp add: rd_def zdiv_int [symmetric] del: zdiv_int)
  then show ?thesis by (simp add: median_at_def k)
qed

lemma medianFilter_constant_field:
  assumes "0 \<le> kernelSize div 2"
  shows "medianFilter (replicate (W * H) c) W H kernelSize = replicate (W * H) (Num c)"
  unfolding medianFilter_def Let_def
proof (rule grid_full_const)
  show "length (replicate (length (replicate (W * H) c)) (Num 0 :: real jsnum)) = W * H" by simp
next
  fix x y :: int
  assume "0 \<le> x" "x < int W" "0 \<le> y" "y < int H"
  then have "0 < W" "0 < H" by auto
  then show "median_at (replicate (W * H) c) (int W) (int H) (kernelSize div 2) x y = Num c"
    by (rule median_at_constant [OF assms])
qed

text \<open>
  Claim C7. On a constant field of \<open>W * H\<close> values and with an odd kernel size of at
  least 1, the median filter returns the same constant field.
\<close>

theorem medianFilter_constant:
  assumes "odd kernelSize" "1 \<le> kernelSize"
  shows "medianFilter (replicate (W * H) c) W H kernelSize = replicate (W * H) (Num c)"
proof -
  have "0 \<le> kernelSize div 2" using assms(2) by simp
  then show ?thesis by (rule medianFilter_constant_field)
qed

theorem medianFilter_constant_witness:
  "odd (3 :: int) \<and> (1 :: int) \<le> 3
   \<and> medianFilter [7, 7, 7, 7, 7, 7] 3 2 3 = [Num 7, Num 7, Num 7, Num 7, Num 7, Num 7]"
  using medianFilter_constant [of 3 3 2 7] by (simp add: numeral_eq_Suc)

section \<open>Radial gradient\<close>








section \<open>Sobel edges\<close>

lemma upto_m1_1: "[- 1..1 :: int] = [- 1, 0, 1]"
  by code_simp

lemma sobel_taps_eq:
  "sobel_taps = [(- 1, - 1), (- 1, 0), (- 1, 1), (0, - 1), (0, 0), (0, 1), (1, - 1), (1, 0), (1, 1)]"
  by (simp add: sobel_taps_def upto_m1_1)

lemma gray_val_in_range:
  "0 \<le> i \<and> i < int (length gray) \<Longrightarrow> gray_val gray i = Num (uint (gray ! nat i))"
  by (simp add: gray_val_def rd_def)

lemma uint_byte_bounds: "0 \<le> uint (w :: u8) \<and> uint w \<le> 255"
  using uint_lt2p [of w] by simp

text \<open>The gradient pair lies in an octagon; its squared length is largest at a vertex.\<close>

lemma octagon_bound:
  fixes X Y :: int
  assumes "\<bar>X\<bar> \<le> 1020" "\<bar>Y\<bar> \<le> 1020" "\<bar>X + Y\<bar> \<le> 1530" "\<bar>X - Y\<bar> \<le> 1530"
  shows "X * X + Y * Y \<le> 1300500"
proof -
  define u where "u = max \<bar>X\<bar> \<bar>Y\<bar>"
  define w where "w = min \<bar>X\<bar> \<bar>Y\<bar>"
  have e: "X * X + Y * Y = u * u + w * w"
    by (auto simp: u_def w_def max_def min_def abs_if)
  have b: "0 \<le> w" "w \<le> u" "u \<le> 1020" "u + w \<le> 1530"
    using assms by (auto simp: u_def w_def max_def min_def abs_if)
  show ?thesis
  proof (cases "u \<le> 765")
    case True
    have "w * w \<le> u * u" using b by (intro mult_mono) simp_all
    moreover have "u * u \<le> 765 * 765" using b True by (intro mult_mono) simp_all
    ultimately show ?thesis by (simp add: e)
  next
    case False
    have "w * w \<le> (1530 - u) * (1530 - u)" using b by (intro mult_mono) simp_all
    moreover have "0 \<le> (u - 765) * (1020 - u)" using b False by (intro mult_nonneg_nonneg) simp_all
    ultimately have "u * u + w * w \<le> 2 * 255 * u + 12 * 255 * 255"
      by (simp add: algebra_simps)
    with b show ?thesis by (simp add: e)
  qed
qed

lemma sobel_square_bound:
  fixes a b c d f g h i :: int
  assumes "0 \<le> a \<and> a \<le> 255" "0 \<le> b \<and> b \<le> 255" "0 \<le> c \<and> c \<le> 255" "0 \<le> d \<and> d \<le> 255"
    "0 \<le> f \<and> f \<le> 255" "0 \<le> g \<and> g \<le> 255" "0 \<le> h \<and> h \<le> 255" "0 \<le> i \<and> i \<le> 255"
  shows "(c - a + 2 * f - 2 * d + i - g) * (c - a + 2 * f - 2 * d + i - g)
       + (g - a + 2 * h - 2 * b + i - c) * (g - a + 2 * h - 2 * b + i - c) \<le> 1300500"
  by (rule octagon_bound) (use assms in \<open>simp_all add: abs_le_iff\<close>)

lemma fl_53_sobel_root: "fl 53 (2391580995 / 2097152) = 2391580995 / 2097152"
  by (rule fl_exact [where e = 10 and n = "2391580995 * 2 ^ 21"]) (simp_all add: power_int_minus)

lemma fl_53_sobel_max: "fl 53 (9378749 / 2097152) = 9378749 / 2097152"
  by (rule fl_exact [where e = 2 and n = "9378749 * 2 ^ 29"]) (simp_all add: power_int_minus)

lemma fl_24_sobel_max: "fl 24 (9378749 / 2097152) = 9378749 / 2097152"
  by (rule fl_exact [where e = 2 and n = 9378749]) (simp_all add: power_int_minus)

text \<open>
  The largest magnitude: the square root is at most \<open>255 * sqrt 20\<close>, which lies below
  the double \<open>2391580995 / 2 ^ 21\<close>; a 255th of that is the single-precision number
  \<open>9378749 / 2 ^ 21\<close>, and rounding is monotone.
\<close>

lemma sobel_mag_bound:
  assumes "X * X + Y * Y \<le> 1300500"
  shows "0 \<le> fl 24 (fl 53 (fl 53 (sqrt (of_int (X * X + Y * Y))) / 255))"
    and "fl 24 (fl 53 (fl 53 (sqrt (of_int (X * X + Y * Y))) / 255)) \<le> 9378749 / 2097152"
proof -
  let ?s = "sqrt (real_of_int (X * X + Y * Y))"
  have s0: "0 \<le> ?s" by simp
  have "real_of_int (X * X + Y * Y) \<le> real_of_int 1300500"
    using assms by (simp only: of_int_le_iff)
  also have "real_of_int 1300500 \<le> (2391580995 / 2097152)\<^sup>2" by (simp add: power2_eq_square)
  finally have "?s \<le> 2391580995 / 2097152" by (intro real_le_lsqrt) simp_all
  then have "fl 53 ?s \<le> fl 53 (2391580995 / 2097152)"
    using s0 by (intro fl_mono_nonneg) simp_all
  then have a: "fl 53 ?s \<le> 2391580995 / 2097152" by (simp only: fl_53_sobel_root)
  have a0: "0 \<le> fl 53 ?s" using s0 by (intro fl_nonneg) simp_all
  have b0: "0 \<le> fl 53 ?s / 255" using a0 by simp
  have "fl 53 ?s / 255 \<le> 9378749 / 2097152" using a by simp
  then have "fl 53 (fl 53 ?s / 255) \<le> fl 53 (9378749 / 2097152)"
    using b0 by (intro fl_mono_nonneg) simp_all
  then have b: "fl 53 (fl 53 ?s / 255) \<le> 9378749 / 2097152" by (simp only: fl_53_sobel_max)
  have c0: "0 \<le> fl 53 (fl 53 ?s / 255)" using b0 by (intro fl_nonneg) simp_all
  then show "0 \<le> fl 24 (fl 53 (fl 53 ?s / 255))" by (rule fl_nonneg) simp
  have "fl 24 (fl 53 (fl 53 ?s / 255)) \<le> fl 24 (9378749 / 2097152)"
    using b c0 by (intro fl_mono_nonneg) simp_all
  then show "fl 24 (fl 53 (fl 53 ?s / 255)) \<le> 9378749 / 2097152"
    by (simp only: fl_24_sobel_max)
qed

lemma sobel_reads_in_range:
  assumes "length gray = W * H" "1 \<le> x" "x \<le> int W - 2" "1 \<le> y" "y \<le> int H - 2"
    and "- 1 \<le> ky" "ky \<le> 1" "- 1 \<le> kx" "kx \<le> 1"
  shows "gray_val gray ((y + ky) * int W + (x + kx))
       = Num (uint (gray ! nat ((y + ky) * int W + (x + kx))))"
proof (rule gray_val_in_range)
  show "0 \<le> (y + ky) * int W + (x + kx) \<and> (y + ky) * int W + (x + kx) < int (length gray)"
    using cell_bound [of "y + ky" H "x + kx" W] assms by simp
qed

lemma sobel_mag_interior:
  assumes "length gray = W * H" "1 \<le> x" "x \<le> int W - 2" "1 \<le> y" "y \<le> int H - 2"
  shows "\<exists>v. sobel_mag (sobel_grad gray (int W) sobelX x y) (sobel_grad gray (int W) sobelY x y) = Num v
           \<and> 0 \<le> v \<and> v \<le> 9378749 / 2097152"
proof -
  let ?p = "\<lambda>ky kx. uint (gray ! nat ((y + ky) * int W + (x + kx)))"
  let ?X = "?p (- 1) 1 - ?p (- 1) (- 1) + 2 * ?p 0 1 - 2 * ?p 0 (- 1) + ?p 1 1 - ?p 1 (- 1)"
  let ?Y = "?p 1 (- 1) - ?p (- 1) (- 1) + 2 * ?p 1 0 - 2 * ?p (- 1) 0 + ?p 1 1 - ?p (- 1) 1"
  have r: "gray_val gray ((y + ky) * int W + (x + kx)) = Num (?p ky kx)"
    if "- 1 \<le> ky" "ky \<le> 1" "- 1 \<le> kx" "kx \<le> 1" for ky kx
    by (rule sobel_reads_in_range [OF assms that])
  have gx: "sobel_grad gray (int W) sobelX x y = Num ?X"
    using r [of "- 1" "- 1"] r [of "- 1" 0] r [of "- 1" 1] r [of 0 "- 1"] r [of 0 0] r [of 0 1]
      r [of 1 "- 1"] r [of 1 0] r [of 1 1]
    by (simp add: sobel_grad_def sobel_taps_eq sobelX_def)
  have gy: "sobel_grad gray (int W) sobelY x y = Num ?Y"
    using r [of "- 1" "- 1"] r [of "- 1" 0] r [of "- 1" 1] r [of 0 "- 1"] r [of 0 0] r [of 0 1]
      r [of 1 "- 1"] r [of 1 0] r [of 1 1]
    by (simp add: sobel_grad_def sobel_taps_eq sobelY_def)
  have "?X * ?X + ?Y * ?Y \<le> 1300500"
    by (rule sobel_square_bound) (rule uint_byte_bounds)+
  from sobel_mag_bound [OF this]
  have "0 \<le> fl 24 (fl 53 (fl 53 (sqrt (of_int (?X * ?X + ?Y * ?Y))) / 255))"
    "fl 24 (fl 53 (fl 53 (sqrt (of_int (?X * ?X + ?Y * ?Y))) / 255)) \<le> 9378749 / 2097152"
    by blast+
  moreover have "sobel_mag (Num ?X) (Num ?Y)
      = Num (fl 24 (fl 53 (fl 53 (sqrt (of_int (?X * ?X + ?Y * ?Y))) / 255)))"
    by (simp add: sobel_mag_def)
  ultimately show ?thesis unfolding gx gy by blast
qed

text \<open>
  Claim C5, as amended. For a greyscale field of \<open>W * H\<close> samples every value stored in
  the Sobel edge field is a number between 0 and \<open>9378749 / 2097152\<close> (about 4.4721360,
  the single-precision number next above \<open>sqrt 20\<close>; not about 1.4), and the pixels of
  the first and last row and column are exactly 0.
  The value 4 is reached at a vertical step edge from 0 to 255, and the bound itself
  where the horizontal gradient is 1020 and the vertical one 510.
\<close>

theorem sobelEdges_range:
  assumes "length gray = W * H" "x < W" "y < H"
  shows "\<exists>v. sobelEdges gray W H ! (y * W + x) = Num v \<and> 0 \<le> v \<and> v \<le> 9378749 / 2097152
           \<and> (x = 0 \<or> y = 0 \<or> x = W - 1 \<or> y = H - 1 \<longrightarrow> v = 0)"
proof (cases "1 \<le> int x \<and> int x \<le> int W - 2 \<and> 1 \<le> int y \<and> int y \<le> int H - 2")
  case True
  let ?g = "\<lambda>x y. sobel_mag (sobel_grad gray (int W) sobelX x y) (sobel_grad gray (int W) sobelY x y)"
  have k: "y * W + x < W * H"
  proof -
    have "int y * int W + int x < int (W * H)"
      by (rule cell_bound) (use assms in auto)
    then have "int (y * W + x) < int (W * H)" by simp
    then show ?thesis by (simp only: of_nat_less_iff)
  qed
  have "sobelEdges gray W H ! (y * W + x) = ?g (int x) (int y)"
    unfolding sobelEdges_def Let_def
  proof (rule grid_hit)
    show "\<forall>x \<in> set [1..int W - 2]. 0 \<le> x \<and> x < int W" by auto
    show "int y \<in> set [1..int H - 2]" "int x \<in> set [1..int W - 2]" using True by auto
    show "int y * int W + int x = int (y * W + x)" by simp
    show "y * W + x < length (replicate (W * H) (Num 0 :: real jsnum))" using k by simp
  qed
  moreover from True have "\<not> (x = 0 \<or> y = 0 \<or> x = W - 1 \<or> y = H - 1)" by auto
  moreover from True sobel_mag_interior [OF assms(1), of "int x" "int y"]
  obtain v where "?g (int x) (int y) = Num v" "0 \<le> v" "v \<le> 9378749 / 2097152" by auto
  ultimately show ?thesis by auto
next
  case False
  have "sobelEdges gray W H ! (y * W + x) = replicate (W * H) (Num 0) ! (y * W + x)"
    unfolding sobelEdges_def Let_def
  proof (rule grid_miss, intro ballI notI)
    fix y' x' assume m: "y' \<in> set [1..int H - 2]" "x' \<in> set [1..int W - 2]"
      and e: "y' * int W + x' = int (y * W + x)"
    have "y' * int W + x' = int y * int W + int x" using e by simp
    then have "y' = int y \<and> x' = int x"
      by (rule cell_index_inj [rotated 4]) (use m assms(2) in auto)
    with m False show False by auto
  qed
  moreover have "y * W + x < W * H"
  proof -
    have "int y * int W + int x < int (W * H)"
      by (rule cell_bound) (use assms in auto)
    then have "int (y * W + x) < int (W * H)" by simp
    then show ?thesis by (simp only: of_nat_less_iff)
  qed
  ultimately have "sobelEdges gray W H ! (y * W + x) = Num 0" by simp
  then show ?thesis by simp
qed

lemma sqrt_1020_sq: "sqrt 1040400 = 1020"
proof -
  have "sqrt ((1020 :: real)\<^sup>2) = 1020" by (simp only: real_sqrt_abs abs_numeral)
  then show ?thesis by simp
qed

lemma fl_53_1020: "fl 53 1020 = 1020"
  by (rule fl_exact [where e = 9 and n = "1020 * 2 ^ 43"]) (simp_all add: power_int_minus)

lemma fl_53_4: "fl 53 4 = 4"
  by (rule fl_exact [where e = 2 and n = "2 ^ 52"]) (simp_all add: power_int_minus)

lemma fl_24_4: "fl 24 4 = 4"
  by (rule fl_exact [where e = 2 and n = "2 ^ 23"]) (simp_all add: power_int_minus)

lemma sobel_step_edge:
  "sobelEdges [0, 0, 255, 0, 0, 255, 0, 0, 255] 3 3 ! (1 * 3 + 1) = Num 4"
  by (simp add: sobelEdges_def upto_rec1 [of 1 1] nth_wr sobel_mag_def sobel_grad_def
      sobel_taps_eq sobelX_def sobelY_def gray_val_def rd_def sqrt_1020_sq
      fl_53_1020 fl_53_4 fl_24_4)

theorem sobelEdges_range_witness:
  "length [0, 0, 255, 0, 0, 255, 0, 0, 255 :: u8] = 3 * 3
   \<and> (\<exists>v. sobelEdges [0, 0, 255, 0, 0, 255, 0, 0, 255] 3 3 ! (1 * 3 + 1) = Num v \<and> 0 \<le> v
          \<and> v \<le> 9378749 / 2097152 \<and> v = 4)
   \<and> (\<exists>v. sobelEdges [0, 0, 255, 0, 0, 255, 0, 0, 255] 3 3 ! (0 * 3 + 2) = Num v \<and> 0 \<le> v
          \<and> v \<le> 9378749 / 2097152 \<and> v = 0)"
  using sobelEdges_range [of "[0, 0, 255, 0, 0, 255, 0, 0, 255]" 3 3 1 1]
    sobelEdges_range [of "[0, 0, 255, 0, 0, 255, 0, 0, 255]" 3 3 2 0] sobel_step_edge
  by auto

theorem sobelEdges_exceeds_counterexample:
  "sobelEdges [0, 0, 255, 0, 0, 255, 0, 0, 255] 3 3 ! (1 * 3 + 1) = Num 4 \<and> \<not> (4 :: real) \<le> 1.5"
  by (simp add: sobelEdges_def upto_rec1 [of 1 1] nth_wr sobel_mag_def sobel_grad_def
      sobel_taps_eq sobelX_def sobelY_def gray_val_def rd_def sqrt_1020_sq
      fl_53_1020 fl_53_4 fl_24_4)

text \<open>
  The bound is reached: with the gradients 1020 and 510 the square root of 1300500 is
  rounded to a double, divided by 255, and rounded to single precision on the store.
\<close>

lemma fl_53_sqrt_max: "fl 53 (sqrt 1300500) = 5015508793187507 / 2 ^ 42"
proof -
  let ?s = "sqrt (1300500 :: real)"
  have lo: "(10031017586375013 / 2 ^ 43 :: real) < ?s"
    by (rule real_less_rsqrt) (simp add: power2_eq_square)
  have hi: "?s < (10031017586375015 / 2 ^ 43 :: real)"
    by (rule real_less_lsqrt) (simp_all add: power2_eq_square)
  have p: "0 < ?s" "2 powi 10 \<le> ?s" "?s < 2 powi (10 + 1)"
    using lo hi by simp_all
  have a: "5015508793187507 - 1 / 2 < ?s * 2 ^ 42" using lo by (simp add: field_simps)
  have b: "?s * 2 ^ 42 < 5015508793187507 + 1 / 2" using hi by (simp add: field_simps)
  have "?s / 2 powi (10 - (int 53 - 1)) = ?s * 2 ^ 42" by (simp add: power_int_minus)
  moreover have "\<bar>?s * 2 ^ 42 - of_int 5015508793187507\<bar> < 1 / 2"
    using a b unfolding of_int_numeral by linarith
  ultimately have "\<bar>?s / 2 powi (10 - (int 53 - 1)) - of_int 5015508793187507\<bar> < 1 / 2"
    by (simp only:)
  from fl_near [OF p this] show ?thesis by (simp add: power_int_minus)
qed

lemma fl_53_sqrt_max_quot: "fl 53 (5015508793187507 / 2 ^ 42 / 255) = 629397181890197 / 2 ^ 47"
  using fl_near [where x = "5015508793187507 / 2 ^ 42 / 255" and e = 2 and p = 53
      and n = 5035177455121576]
  by (simp add: power_int_minus)

lemma fl_24_sqrt_max: "fl 24 (629397181890197 / 2 ^ 47) = 9378749 / 2097152"
  using fl_near [where x = "629397181890197 / 2 ^ 47" and e = 2 and p = 24 and n = 9378749]
  by (simp add: power_int_minus)

lemma sobel_mag_max: "sobel_mag (Num 1020) (Num 510) = Num (9378749 / 2097152)"
proof -
  have "real_of_int (1020 * 1020 + 510 * 510) = 1300500" by simp
  then show ?thesis
    by (simp only: sobel_mag_def prod.case jsnum.case fl_53_sqrt_max fl_53_sqrt_max_quot
        fl_24_sqrt_max)
qed

lemma sobel_bound_attained:
  "sobelEdges [0, 0, 255, 0, 0, 255, 0, 255, 255] 3 3 ! (1 * 3 + 1) = Num (9378749 / 2097152)"
  by (simp add: sobelEdges_def upto_rec1 [of 1 1] nth_wr sobel_grad_def
      sobel_taps_eq sobelX_def sobelY_def gray_val_def rd_def sobel_mag_max)

section \<open>Gaussian blur\<close>

lemma length_gaussianBlur [simp]: "length (gaussianBlur data W H sigma) = length data"
  by (simp add: gaussianBlur_def Let_def)

lemma length_medianFilter [simp]: "length (medianFilter data W H kernelSize) = length data"
  by (simp add: medianFilter_def Let_def)

lemma length_blockMatch [simp]: "length (blockMatch left right W H blockSize maxDisparity) = W * H"
  by (simp add: blockMatch_def Let_def)

lemma length_normalizeArray [simp]: "length (normalizeArray data) = length data"
  by (simp add: normalizeArray_def normalize_rounded_def Let_def)

lemma rdn_gaussKernel:
  assumes "sigma \<noteq> 0" "- h \<le> k" "k \<le> h" "h = (\<lceil>sigma * 3\<rceil> * 2 + 1) div 2"
  shows "\<exists>w. rdn (gaussKernel sigma) (k + h) = Num w"
proof -
  have "nat (k + h) < length [- h..h]" using assms(2,3) by simp
  then show ?thesis
    using assms by (simp add: gaussKernel_def Let_def rdn_def rd_def)
qed

lemma rdn_zero_field:
  "0 \<le> i \<and> i < int n \<Longrightarrow> rdn (replicate n (Num 0)) i = Num 0"
  by (simp add: rdn_def rd_replicate)

lemma fold_js_add_zero:
  assumes "\<forall>k \<in> set ks. F k = Num (0 :: real)"
  shows "fold (\<lambda>k val. js_add val (F k)) ks (Num 0) = Num 0"
proof -
  have "\<forall>k \<in> set ks. F k = Num ((\<lambda>k. 0) k)" using assms by simp
  then have "fold (\<lambda>k val. js_add val (F k)) ks (Num 0) = Num (0 + sum_list (map (\<lambda>k. 0) ks))"
    by (rule fold_js_add_Num)
  then show ?thesis by simp
qed

lemma blur_h_zero:
  assumes "\<And>k. - h \<le> k \<Longrightarrow> k \<le> h \<Longrightarrow> \<exists>w. rdn kern (k + h) = Num w"
    and "0 < W" "0 \<le> y" "y < int H"
  shows "blur_h (replicate (W * H) (Num 0)) kern (int W) h x y = Num 0"
  unfolding blur_h_def Let_def
proof (rule fold_js_add_zero, rule ballI)
  fix k assume "k \<in> set [- h..h]"
  then obtain w where w: "rdn kern (k + h) = Num w" using assms(1) by auto
  have "0 \<le> y * int W + max 0 (min (int W - 1) (x + k))
      \<and> y * int W + max 0 (min (int W - 1) (x + k)) < int (W * H)"
    using cell_bound [of y H "max 0 (min (int W - 1) (x + k))" W] assms(2-4) by simp
  then have "rdn (replicate (W * H) (Num 0)) (y * int W + max 0 (min (int W - 1) (x + k))) = Num (0 :: real)"
    by (rule rdn_zero_field)
  then show "js_mul (rdn (replicate (W * H) (Num 0)) (y * int W + max 0 (min (int W - 1) (x + k))))
               (rdn kern (k + h)) = Num 0"
    by (simp add: w)
qed

lemma blur_v_zero:
  assumes "\<And>k. - h \<le> k \<Longrightarrow> k \<le> h \<Longrightarrow> \<exists>w. rdn kern (k + h) = Num w"
    and "0 < H" "0 \<le> x" "x < int W"
  shows "blur_v (replicate (W * H) (Num 0)) kern (int W) (int H) h x y = Num 0"
  unfolding blur_v_def Let_def
proof (rule fold_js_add_zero, rule ballI)
  fix k assume "k \<in> set [- h..h]"
  then obtain w where w: "rdn kern (k + h) = Num w" using assms(1) by auto
  have "0 \<le> max 0 (min (int H - 1) (y + k)) * int W + x
      \<and> max 0 (min (int H - 1) (y + k)) * int W + x < int (W * H)"
    using cell_bound [of "max 0 (min (int H - 1) (y + k))" H x W] assms(2-4) by simp
  then have "rdn (replicate (W * H) (Num 0)) (max 0 (min (int H - 1) (y + k)) * int W + x) = Num (0 :: real)"
    by (rule rdn_zero_field)
  then show "js_mul (rdn (replicate (W * H) (Num 0)) (max 0 (min (int H - 1) (y + k)) * int W + x))
               (rdn kern (k + h)) = Num 0"
    by (simp add: w)
qed

lemma gaussianBlur_zero_field:
  assumes "sigma \<noteq> 0"
  shows "gaussianBlur (replicate (W * H) (Num 0)) W H sigma = replicate (W * H) (Num 0)"
proof -
  let ?h = "(\<lceil>sigma * 3\<rceil> * 2 + 1) div 2"
  let ?z = "replicate (W * H) (Num 0 :: real jsnum)"
  have kern: "\<exists>w. rdn (gaussKernel sigma) (k + ?h) = Num w" if "- ?h \<le> k" "k \<le> ?h" for k
    by (rule rdn_gaussKernel [OF assms that refl])
  have temp: "fold (\<lambda>y. fold (\<lambda>x temp. wr temp (y * int W + x)
                  (blur_h ?z (gaussKernel sigma) (int W) ?h x y)) [0..int W - 1])
                [0..int H - 1] (replicate (length ?z) (Num 0)) = ?z"
  proof (rule grid_full_const)
    show "length (replicate (length ?z) (Num 0 :: real jsnum)) = W * H" by simp
  next
    fix x y :: int assume "0 \<le> x" "x < int W" "0 \<le> y" "y < int H"
    then show "blur_h ?z (gaussKernel sigma) (int W) ?h x y = Num 0"
      by (intro blur_h_zero kern) auto
  qed
  have res: "fold (\<lambda>y. fold (\<lambda>x result. wr result (y * int W + x)
                  (blur_v ?z (gaussKernel sigma) (int W) (int H) ?h x y)) [0..int W - 1])
                [0..int H - 1] (replicate (length ?z) (Num 0)) = ?z"
  proof (rule grid_full_const)
    show "length (replicate (length ?z) (Num 0 :: real jsnum)) = W * H" by simp
  next
    fix x y :: int assume "0 \<le> x" "x < int W" "0 \<le> y" "y < int H"
    then show "blur_v ?z (gaussKernel sigma) (int W) (int H) ?h x y = Num 0"
      by (intro blur_v_zero kern) auto
  qed
  show ?thesis
    unfolding gaussianBlur_def Let_def temp by (rule res)
qed

lemma normalizeArray_zero_field:
  "normalizeArray (replicate n (xnum_of (Num 0))) = replicate n 0"
proof (cases "n = 0")
  case True
  then show ?thesis by (simp add: normalizeArray_def normalize_rounded_def)
next
  case False
  have m: "replicate n (xnum_of (Num (0 :: real))) = map Fin (replicate n 0)"
    by (simp add: xnum_of_def)
  have st: "fold minmax_step (map Fin (replicate n 0)) (PosInf, NegInf) = (Fin 0, Fin 0)"
    using False by (simp add: fold_minmax_finite del: map_replicate)
  have "norm_round (Fin 0) (Fin 0) (norm_range (Fin 0) (Fin 0)) = Fin 0"
    by (simp add: norm_range_Fin norm_round_Fin)
  then show ?thesis
    unfolding m normalizeArray_def normalize_rounded_def Let_def st
    by (simp add: toUint8x_def)
qed

section \<open>The RGBA fill\<close>

lemma fill_rgba_fold: "fill_rgba vals W H = fold (rgba_step vals) [0..<length vals] (replicate (W * H * 4) 0)"
  by (simp add: fill_rgba_def rgba_step_def [abs_def] Let_def)

lemma length_rgba_fold [simp]: "length (fold (rgba_step vals) is a) = length a"
  by (induction "is" arbitrary: a) (simp_all add: rgba_step_def)

lemma length_fill_rgba [simp]: "length (fill_rgba vals W H) = W * H * 4"
  by (simp add: fill_rgba_fold)

lemma quad_index:
  fixes i j c :: nat
  assumes "c < 4"
  shows "i * 4 + c = j \<longleftrightarrow> j div 4 = i \<and> j mod 4 = c"
proof
  assume "i * 4 + c = j"
  then have "j = c + i * 4" by simp
  with assms show "j div 4 = i \<and> j mod 4 = c" by simp
next
  assume "j div 4 = i \<and> j mod 4 = c"
  moreover have "j div 4 * 4 + j mod 4 = j" by simp
  ultimately show "i * 4 + c = j" by simp
qed

lemma rgba_index:
  "int i * 4 = int j \<longleftrightarrow> j div 4 = i \<and> j mod 4 = 0"
  "int i * 4 + 1 = int j \<longleftrightarrow> j div 4 = i \<and> j mod 4 = 1"
  "int i * 4 + 2 = int j \<longleftrightarrow> j div 4 = i \<and> j mod 4 = 2"
  "int i * 4 + 3 = int j \<longleftrightarrow> j div 4 = i \<and> j mod 4 = 3"
proof -
  have "int i * 4 = int j \<longleftrightarrow> i * 4 + 0 = j" by linarith
  then show "int i * 4 = int j \<longleftrightarrow> j div 4 = i \<and> j mod 4 = 0"
    using quad_index [of 0 i j] by simp
  have "int i * 4 + 1 = int j \<longleftrightarrow> i * 4 + 1 = j" by linarith
  then show "int i * 4 + 1 = int j \<longleftrightarrow> j div 4 = i \<and> j mod 4 = 1"
    using quad_index [of 1 i j] by simp
  have "int i * 4 + 2 = int j \<longleftrightarrow> i * 4 + 2 = j" by linarith
  then show "int i * 4 + 2 = int j \<longleftrightarrow> j div 4 = i \<and> j mod 4 = 2"
    using quad_index [of 2 i j] by simp
  have "int i * 4 + 3 = int j \<longleftrightarrow> i * 4 + 3 = j" by linarith
  then show "int i * 4 + 3 = int j \<longleftrightarrow> j div 4 = i \<and> j mod 4 = 3"
    using quad_index [of 3 i j] by simp
qed

lemma rgba_step_nth:
  assumes "j < length a"
  shows "rgba_step vals i a ! j
       = (if j div 4 = i then (if j mod 4 = 3 then 255 else vals ! i) else a ! j)"
proof (cases "j div 4 = i")
  case False
  then show ?thesis by (simp add: rgba_step_def nth_wr rgba_index)
next
  case True
  have "j mod 4 < 4" by simp
  then consider "j mod 4 = 0" | "j mod 4 = 1" | "j mod 4 = 2" | "j mod 4 = 3" by linarith
  then show ?thesis
    by cases (use True assms in \<open>simp_all add: rgba_step_def nth_wr rgba_index\<close>)
qed

lemma rgba_fold_nth:
  assumes "j < length a"
  shows "fold (rgba_step vals) [0..<m] a ! j
       = (if j div 4 < m then (if j mod 4 = 3 then 255 else vals ! (j div 4)) else a ! j)"
proof (induction m)
  case 0
  show ?case by simp
next
  case (Suc m)
  have "fold (rgba_step vals) [0..<Suc m] a ! j
      = rgba_step vals m (fold (rgba_step vals) [0..<m] a) ! j"
    by simp
  also have "\<dots> = (if j div 4 = m then (if j mod 4 = 3 then 255 else vals ! m)
                     else fold (rgba_step vals) [0..<m] a ! j)"
    using assms by (simp add: rgba_step_nth)
  finally show ?case using Suc by (simp add: less_Suc_eq)
qed

lemma fill_rgba_nth:
  assumes "length vals = W * H" "j < W * H * 4"
  shows "fill_rgba vals W H ! j = (if j mod 4 = 3 then 255 else vals ! (j div 4))"
proof -
  have "j div 4 < length vals" using assms by simp
  then show ?thesis using assms(2) by (simp add: fill_rgba_fold rgba_fold_nth)
qed

lemma concat_replicate_nth:
  "length xs = 4 \<Longrightarrow> j < n * 4 \<Longrightarrow> concat (replicate n xs) ! j = xs ! (j mod 4)"
proof (induction n arbitrary: j)
  case 0
  then show ?case by simp
next
  case (Suc n)
  show ?case
  proof (cases "j < 4")
    case True
    with Suc.prems(1) show ?thesis by (simp add: nth_append)
  next
    case False
    then have "j - 4 < n * 4" "(j - 4) mod 4 = j mod 4" using Suc.prems by (simp_all add: le_mod_geq)
    with Suc.IH [of "j - 4"] Suc.prems(1) False show ?thesis by (simp add: nth_append)
  qed
qed

lemma length_concat_replicate [simp]: "length (concat (replicate n [a, b, c, d])) = n * 4"
  by (induction n) simp_all

lemma fill_rgba_zero_field:
  "fill_rgba (replicate (W * H) 0) W H = concat (replicate (W * H) [0, 0, 0, 255])"
proof (rule nth_equalityI)
  show "length (fill_rgba (replicate (W * H) 0) W H) = length (concat (replicate (W * H) [0, 0, 0, 255 :: u8]))"
    by simp
next
  fix j assume "j < length (fill_rgba (replicate (W * H) 0) W H)"
  then have j: "j < W * H * 4" by simp
  then have d: "j div 4 < W * H" by simp
  have "j mod 4 < 4" by simp
  then consider "j mod 4 = 0" | "j mod 4 = 1" | "j mod 4 = 2" | "j mod 4 = 3" by linarith
  then show "fill_rgba (replicate (W * H) 0) W H ! j = concat (replicate (W * H) [0, 0, 0, 255]) ! j"
    by cases (use j d in \<open>simp_all add: fill_rgba_nth concat_replicate_nth [of "[0, 0, 0, 255]"]\<close>)
qed

section \<open>The stereo pipeline\<close>

lemma computeDepthMap_same_image:
  assumes "opt_smoothing opts \<noteq> Some False" "opt_normalize opts \<noteq> Some False"
  shows "computeDepthMap img img opts =
      Inr \<lparr>depthData = \<lparr>im_width = im_width img, im_height = im_height img,
                         im_data = concat (replicate (im_width img * im_height img) [0, 0, 0, 255])\<rparr>,
           disparityArray = U8 (replicate (im_width img * im_height img) 0)\<rparr>"
proof -
  let ?W = "im_width img" and ?H = "im_height img"
  have s: "(case opt_smoothing opts of None \<Rightarrow> True | Some v \<Rightarrow> v) = True"
    "(case opt_normalize opts of None \<Rightarrow> True | Some v \<Rightarrow> v) = True"
    using assms by (auto split: option.splits)
  have m: "medianFilter (replicate (?W * ?H) 0) ?W ?H 3 = replicate (?W * ?H) (Num 0)"
    by (rule medianFilter_constant_field) simp
  have g: "gaussianBlur (replicate (?W * ?H) (Num 0)) ?W ?H 2 = replicate (?W * ?H) (Num 0)"
    by (rule gaussianBlur_zero_field) simp
  show ?thesis
    by (simp add: computeDepthMap_def Let_def s blockMatch_same_field m g
        normalizeArray_zero_field field_bytes_def fill_rgba_zero_field)
qed

text \<open>
  Claim C6. Two identical 16 by 16 images of constant grey 100, through the stereo
  pipeline with smoothing and normalisation enabled, give a depth map of 256 zeros;
  the depth image holds \<open>(0, 0, 0, 255)\<close> at every pixel. This holds for every block size
  and maximal disparity.
\<close>

theorem computeDepthMap_gray_16:
  "computeDepthMap (gray_image 16 16 100) (gray_image 16 16 100)
     \<lparr>opt_blockSize = bs, opt_maxDisparity = md, opt_smoothing = Some True, opt_normalize = Some True\<rparr>
   = Inr \<lparr>depthData = \<lparr>im_width = 16, im_height = 16, im_data = concat (replicate 256 [0, 0, 0, 255])\<rparr>,
          disparityArray = U8 (replicate 256 0)\<rparr>"
  using computeDepthMap_same_image [of "\<lparr>opt_blockSize = bs, opt_maxDisparity = md,
      opt_smoothing = Some True, opt_normalize = Some True\<rparr>" "gray_image 16 16 100"]
  by (simp add: gray_image_def)

lemma length_toGrayscale [simp]: "length (toGrayscale img) = im_width img * im_height img"
  by (simp add: toGrayscale_def toGrayscale_rounded_def)

lemma computeDepthMap_stages:
  "computeDepthMap l r opts =
     Inr (stereo_result l r (resolve 9 (opt_blockSize opts)) (resolve 64 (opt_maxDisparity opts))
            (resolve True (opt_smoothing opts)) (resolve True (opt_normalize opts)))"
  by (simp add: computeDepthMap_def stereo_result_def stereo_stages_def resolve_def Let_def)

lemma stereo_result_lengths:
  "field_length (disparityArray (stereo_result l r bs md sm nm)) = im_width l * im_height l"
  "length (im_data (depthData (stereo_result l r bs md sm nm))) = im_width l * im_height l * 4"
  by (simp_all add: stereo_result_def stereo_stages_def Let_def field_length_def)

lemma stereo_result_even:
  "stereo_result l r (2 * k) md sm nm = stereo_result l r (2 * k + 1) md sm nm"
proof -
  have "blockMatch gl gr W H (2 * k) md = blockMatch gl gr W H (2 * k + 1) md" for gl gr W H
    by (simp add: blockMatch_def)
  then show ?thesis by (simp add: stereo_result_def stereo_stages_def)
qed

lemma stereo_result_raw:
  "disparityArray (stereo_result l r bs md False False)
     = F32 (map Num (blockMatch (toGrayscale l) (toGrayscale r) (im_width l) (im_height l) bs md))"
  by (simp add: stereo_result_def stereo_stages_def Let_def)

text \<open>
  Claim C1, as amended. The stereo pipeline validates nothing: for every pair of images
  and every configuration, an even or non-positive block size included, it returns a
  result, never \<open>InvalidConfig\<close>. The result is the one of the stages the options select
  (block matcher; median filter and Gaussian blur when smoothing is on; normaliser when
  normalisation is on), with the defaults 9, 64, true and true for missing options; it
  holds a field of \<open>W * H\<close> values and a depth image of \<open>4 * W * H\<close> samples.
  The block matcher takes \<open>blockSize div 2\<close> as the half width: an even block size
  \<open>2 * k\<close> gives the result of \<open>2 * k + 1\<close>, and for \<open>k \<ge> 0\<close> the disparity of an
  interior pixel is the first minimiser of the SAD over the window of half width \<open>k\<close>,
  that of every other pixel 0.
\<close>

theorem computeDepthMap_no_validation:
  "computeDepthMap l r opts =
     Inr (stereo_result l r (resolve 9 (opt_blockSize opts)) (resolve 64 (opt_maxDisparity opts))
            (resolve True (opt_smoothing opts)) (resolve True (opt_normalize opts)))
   \<and> field_length (disparityArray (stereo_result l r bs md sm nm)) = im_width l * im_height l
   \<and> length (im_data (depthData (stereo_result l r bs md sm nm))) = im_width l * im_height l * 4
   \<and> stereo_result l r (2 * k) md sm nm = stereo_result l r (2 * k + 1) md sm nm
   \<and> (0 \<le> k \<and> 0 \<le> md \<and> im_width r = im_width l \<and> im_height r = im_height l
        \<and> x < im_width l \<and> y < im_height l \<longrightarrow>
      (\<exists>ds. disparityArray (stereo_result l r (2 * k) md False False) = F32 (map Num ds)
         \<and> (if interior (im_width l) (im_height l) k x y
            then \<exists>d. ds ! (y * im_width l + x) = of_int d
                   \<and> first_minimiser
                        (sad_sum (toGrayscale l) (toGrayscale r) (int (im_width l)) k (int x) (int y))
                        (min md (int x - k)) d
            else ds ! (y * im_width l + x) = 0)))"
proof -
  have "\<exists>ds. disparityArray (stereo_result l r (2 * k) md False False) = F32 (map Num ds)
         \<and> (if interior (im_width l) (im_height l) k x y
            then \<exists>d. ds ! (y * im_width l + x) = of_int d
                   \<and> first_minimiser
                        (sad_sum (toGrayscale l) (toGrayscale r) (int (im_width l)) k (int x) (int y))
                        (min md (int x - k)) d
            else ds ! (y * im_width l + x) = 0)"
    if h: "0 \<le> k" "0 \<le> md" "im_width r = im_width l" "im_height r = im_height l"
      "x < im_width l" "y < im_height l"
  proof -
    have k: "(2 * k) div 2 = k" by simp
    have "length (toGrayscale l) = im_width l * im_height l"
      "length (toGrayscale r) = im_width l * im_height l"
      using h(3,4) by simp_all
    from blockMatch_half_spec [OF this, of "2 * k" md x y] h
    show ?thesis unfolding stereo_result_raw k by blast
  qed
  then show ?thesis
    using computeDepthMap_stages [of l r opts] stereo_result_lengths [of l r bs md sm nm]
      stereo_result_even [of l r k md sm nm]
    by blast
qed

theorem computeDepthMap_no_validation_witness:
  "computeDepthMap (gray_image 4 3 100) (gray_image 4 3 90)
      \<lparr>opt_blockSize = Some 2, opt_maxDisparity = Some 1, opt_smoothing = Some False,
       opt_normalize = Some False\<rparr>
     = Inr (stereo_result (gray_image 4 3 100) (gray_image 4 3 90) 2 1 False False)
   \<and> (0 :: int) \<le> 1 \<and> im_width (gray_image 4 3 90) = im_width (gray_image 4 3 100)
   \<and> im_height (gray_image 4 3 90) = im_height (gray_image 4 3 100)
   \<and> 2 < im_width (gray_image 4 3 100) \<and> 1 < im_height (gray_image 4 3 100)
   \<and> interior (im_width (gray_image 4 3 100)) (im_height (gray_image 4 3 100)) 1 2 1
   \<and> (\<exists>ds. disparityArray (stereo_result (gray_image 4 3 100) (gray_image 4 3 90) (2 * 1) 1 False False)
            = F32 (map Num ds)
        \<and> (\<exists>d. ds ! (1 * im_width (gray_image 4 3 100) + 2) = of_int d
              \<and> first_minimiser
                   (sad_sum (toGrayscale (gray_image 4 3 100)) (toGrayscale (gray_image 4 3 90))
                      (int (im_width (gray_image 4 3 100))) 1 (int 2) (int 1))
                   (min 1 (int 2 - 1)) d))"
proof -
  let ?l = "gray_image 4 3 100" and ?r = "gray_image 4 3 90"
  let ?o = "\<lparr>opt_blockSize = Some 2, opt_maxDisparity = Some 1, opt_smoothing = Some False,
             opt_normalize = Some False\<rparr>"
  note t = computeDepthMap_no_validation [of ?l ?r ?o 2 1 False False 1 2 1]
  have h: "(0 :: int) \<le> 1 \<and> (0 :: int) \<le> 1 \<and> im_width ?r = im_width ?l \<and> im_height ?r = im_height ?l
      \<and> 2 < im_width ?l \<and> 1 < im_height ?l"
    by (simp add: gray_image_def)
  have i: "interior (im_width ?l) (im_height ?l) 1 2 1"
    by (simp add: gray_image_def interior_def)
  have "computeDepthMap ?l ?r ?o
      = Inr (stereo_result ?l ?r (resolve 9 (opt_blockSize ?o)) (resolve 64 (opt_maxDisparity ?o))
               (resolve True (opt_smoothing ?o)) (resolve True (opt_normalize ?o)))"
    using t by blast
  then have c: "computeDepthMap ?l ?r ?o = Inr (stereo_result ?l ?r 2 1 False False)"
    by (simp add: resolve_def)
  from t h have "\<exists>ds. disparityArray (stereo_result ?l ?r (2 * 1) 1 False False) = F32 (map Num ds)
         \<and> (if interior (im_width ?l) (im_height ?l) 1 2 1
            then \<exists>d. ds ! (1 * im_width ?l + 2) = of_int d
                   \<and> first_minimiser
                        (sad_sum (toGrayscale ?l) (toGrayscale ?r) (int (im_width ?l)) 1 (int 2) (int 1))
                        (min 1 (int 2 - 1)) d
            else ds ! (1 * im_width ?l + 2) = 0)"
    by blast
  then have "\<exists>ds. disparityArray (stereo_result ?l ?r (2 * 1) 1 False False) = F32 (map Num ds)
         \<and> (\<exists>d. ds ! (1 * im_width ?l + 2) = of_int d
                   \<and> first_minimiser
                        (sad_sum (toGrayscale ?l) (toGrayscale ?r) (int (im_width ?l)) 1 (int 2) (int 1))
                        (min 1 (int 2 - 1)) d)"
    by (simp only: i if_True)
  with c h i show ?thesis by blast
qed

theorem computeDepthMap_even_blockSize_counterexample:
  "computeDepthMap (gray_image 2 2 100) (gray_image 2 2 100)
     \<lparr>opt_blockSize = Some 8, opt_maxDisparity = Some 64, opt_smoothing = Some True,
      opt_normalize = Some True\<rparr>
   = Inr \<lparr>depthData = \<lparr>im_width = 2, im_height = 2,
                        im_data = [0, 0, 0, 255, 0, 0, 0, 255, 0, 0, 0, 255, 0, 0, 0, 255]\<rparr>,
          disparityArray = U8 [0, 0, 0, 0]\<rparr>
   \<and> computeDepthMap (gray_image 2 2 100) (gray_image 2 2 100)
     \<lparr>opt_blockSize = Some 8, opt_maxDisparity = Some 64, opt_smoothing = Some True,
      opt_normalize = Some True\<rparr> \<noteq> Inl InvalidConfig"
  using computeDepthMap_same_image [of "\<lparr>opt_blockSize = Some 8, opt_maxDisparity = Some 64,
      opt_smoothing = Some True, opt_normalize = Some True\<rparr>" "gray_image 2 2 100"]
  by (simp add: gray_image_def numeral_eq_Suc)

end
